theory Spec2Isabelle
  imports Main "HOL-Library.Signed_Division" "HOL-Library.Multiset"
begin

section \<open>Machine integers and failures\<close>

text \<open>
  The program computes with the C++ type \<^verbatim>\<open>int\<close> (32 bits, two's complement). Values of
  that type are modelled as HOL integers, and every arithmetic result that the source
  stores in an \<^verbatim>\<open>int\<close> is passed through \<open>int32\<close>, which wraps it into the range
  \<open>-2^31 .. 2^31 - 1\<close>. Signed overflow is undefined in C++; wrapping is what the usual
  targets do, and every theorem below that depends on the absence of overflow states the
  bound it needs. The operator \<^verbatim>\<open>%\<close> truncates towards zero: it is \<open>smod\<close>.
\<close>

definition int32 :: "int \<Rightarrow> int" where
  "int32 x = signed_take_bit 31 x"

text \<open>
  The ways in which the process stops: \<^verbatim>\<open>std::terminate()\<close> after the diagnostic of
  \<^verbatim>\<open>allocate_block\<close>, a failed \<^verbatim>\<open>assert\<close>, the \<^verbatim>\<open>std::length_error\<close> of
  \<^verbatim>\<open>vector::reserve\<close> (never caught), and behaviour the language leaves undefined
  (an alignment that is no power of two, a read of memory that holds no object).
\<close>

datatype error = Terminated | Assertion_failed | Length_error | Undefined_behaviour

section \<open>The ownership-based tree (namespace \<^verbatim>\<open>with_raii\<close>)\<close>

text \<open>
  \<^verbatim>\<open>with_raii::Node\<close> owns its children through \<^verbatim>\<open>vector<unique_ptr<Node>>\<close>, so a node
  is a finite tree: a list of children and the identifier. The counter
  \<^verbatim>\<open>g_stat.n_nodes_created\<close> is threaded through as an explicit argument and result.
\<close>

datatype raii_node = Raii_Node (raii_children: "raii_node list") (raii_node_id: int)

text \<open>
  The constructor: the member initialiser takes the identifier from the counter and
  increments it; the body reserves room for \<open>max_n_children\<close> pointers. A negative
  argument converts to a \<^verbatim>\<open>size_t\<close> above \<^verbatim>\<open>max_size()\<close>, and \<^verbatim>\<open>reserve\<close> throws.
\<close>

definition raii_Node :: "int \<Rightarrow> int \<Rightarrow> error + raii_node \<times> int" where
  "raii_Node max_n_children n_nodes_created =
     (if max_n_children < 0 then Inl Length_error
      else Inr (Raii_Node [] n_nodes_created, int32 (n_nodes_created + 1)))"

definition raii_add_child :: "raii_node \<Rightarrow> int \<Rightarrow> int \<Rightarrow> error + raii_node \<times> int" where
  "raii_add_child node max_n_children n_nodes_created =
     (case raii_Node max_n_children n_nodes_created of
        Inl e \<Rightarrow> Inl e
      | Inr (child, n') \<Rightarrow>
          Inr (Raii_Node (raii_children node @ [child]) (raii_node_id node), n'))"

text \<open>
  \<^verbatim>\<open>build_subtree<with_raii::Allocator, with_raii::Node>\<close>. The first loop of the source,
  \<^verbatim>\<open>for (int i = 0; i < N_CHILDREN; ++i) node.add_child(allocator, N_CHILDREN)\<close>, is
  \<open>raii_add_children\<close>; the second, over \<^verbatim>\<open>node.children\<close>, is \<open>raii_build_each\<close>. The
  constants \<^verbatim>\<open>N_CHILDREN\<close> and \<^verbatim>\<open>TREE_DEPTH\<close> are the parameters \<open>N\<close> and \<open>D\<close>.
\<close>

function raii_add_children :: "int \<Rightarrow> int \<Rightarrow> raii_node \<Rightarrow> int \<Rightarrow> error + raii_node \<times> int" where
  "raii_add_children N i node n =
     (if i < N then
        (case raii_add_child node N n of
           Inl e \<Rightarrow> Inl e
         | Inr (node', n') \<Rightarrow> raii_add_children N (i + 1) node' n')
      else Inr (node, n))"
  by pat_completeness auto
termination
  by (relation "measure (\<lambda>(N, i, node, n). nat (N - i))") auto

function raii_build_subtree :: "int \<Rightarrow> raii_node \<Rightarrow> int \<Rightarrow> int \<Rightarrow> error + raii_node \<times> int"
  and raii_build_each :: "int \<Rightarrow> raii_node list \<Rightarrow> int \<Rightarrow> int \<Rightarrow> error + raii_node list \<times> int"
where
  "raii_build_subtree N node levels_left n =
     (case raii_add_children N 0 node n of
        Inl e \<Rightarrow> Inl e
      | Inr (node1, n1) \<Rightarrow>
          if int32 (levels_left - 1) \<le> 0 then Inr (node1, n1)
          else
            (case raii_build_each N (raii_children node1) (int32 (levels_left - 1)) n1 of
               Inl e \<Rightarrow> Inl e
             | Inr (cs, n2) \<Rightarrow> Inr (Raii_Node cs (raii_node_id node1), n2)))"
| "raii_build_each N [] levels_left n = Inr ([], n)"
| "raii_build_each N (c # cs) levels_left n =
     (case raii_build_subtree N c levels_left n of
        Inl e \<Rightarrow> Inl e
      | Inr (c', n1) \<Rightarrow>
          (case raii_build_each N cs levels_left n1 of
             Inl e \<Rightarrow> Inl e
           | Inr (cs', n2) \<Rightarrow> Inr (c' # cs', n2)))"
  by pat_completeness auto
termination
proof (relation "inv_image (less_than <*lex*> less_than)
    (\<lambda>x. case x of
       Inl (N, node, l, n) \<Rightarrow> (2 * nat (int32 (l - 1)) + 1, 0)
     | Inr (N, cs, l, n) \<Rightarrow> (2 * nat (int32 (l - 1)) + 2, length cs))", goal_cases)
  case 1
  show ?case by (intro wf_inv_image wf_lex_prod wf_less_than)
next
  case (2 N node levels_left n x2 x y)
  have "- (2 ^ 31) \<le> int32 (levels_left - 1) - 1"
    using 2 by simp
  moreover have "int32 (levels_left - 1) < 2 ^ 31"
    unfolding int32_def using signed_take_bit_int_less_exp [of 31 "levels_left - 1"] by simp
  ultimately have "int32 (int32 (levels_left - 1) - 1) = int32 (levels_left - 1) - 1"
    unfolding int32_def by (intro signed_take_bit_int_eq_self) simp_all
  with 2 show ?case by simp
next
  case 3
  then show ?case by simp
next
  case 4
  then show ?case by simp
qed

definition raii_build_tree :: "int \<Rightarrow> int \<Rightarrow> int \<Rightarrow> error + raii_node \<times> int" where
  "raii_build_tree N D n =
     (case raii_Node N n of
        Inl e \<Rightarrow> Inl e
      | Inr (root, n1) \<Rightarrow> raii_build_subtree N root D n1)"

text \<open>
  \<^verbatim>\<open>traverse\<close>: the checksum starts as the node's own identifier; for each child, left to
  right, it becomes \<^verbatim>\<open>(checksum + traverse(*c)) % 43112609\<close>.
\<close>

fun traverse_raii :: "raii_node \<Rightarrow> int" where
  "traverse_raii (Raii_Node cs i) =
     fold (\<lambda>c checksum. int32 (checksum + traverse_raii c) smod 43112609) cs i"

text \<open>
  The checksum as section 4.4 of the specification words it: own identifier plus the
  checksums of the children, reduced modulo 43112609.
\<close>

fun spec_checksum :: "raii_node \<Rightarrow> int" where
  "spec_checksum (Raii_Node cs i) = (i + sum_list (map spec_checksum cs)) mod 43112609"

text \<open>The identifiers of a tree, as a multiset.\<close>

fun node_ids :: "raii_node \<Rightarrow> int multiset" where
  "node_ids (Raii_Node cs i) = add_mset i (sum_list (map node_ids cs))"

section \<open>Properties of the checksum\<close>

lemma int32_id: "- 2147483648 \<le> x \<Longrightarrow> x < 2147483648 \<Longrightarrow> int32 x = x"
  unfolding int32_def by (rule signed_take_bit_int_eq_self) simp_all

lemma checksum_step:
  assumes "0 \<le> a" "a < 43112609" "0 \<le> b" "b < 43112609"
  shows "int32 (a + b) smod 43112609 = (a + b) mod 43112609"
proof -
  have "int32 (a + b) = a + b" using assms by (intro int32_id) simp_all
  moreover have "(a + b) smod 43112609 = (a + b) mod 43112609"
    using assms by (intro smod_mod_positive) simp_all
  ultimately show ?thesis by simp
qed

lemma fold_checksum:
  assumes "0 \<le> a" "a < 43112609"
    and "\<forall>c\<in>set cs. 0 \<le> f c \<and> f c < 43112609"
  shows "fold (\<lambda>c checksum. int32 (checksum + f c) smod 43112609) cs a
         = (a + sum_list (map f cs)) mod 43112609"
  using assms
proof (induction cs arbitrary: a)
  case Nil
  then show ?case by simp
next
  case (Cons c cs)
  let ?a1 = "(a + f c) mod 43112609"
  have step: "int32 (a + f c) smod 43112609 = ?a1"
    using Cons.prems by (intro checksum_step) simp_all
  have "0 \<le> ?a1" "?a1 < 43112609" by simp_all
  then have "fold (\<lambda>c checksum. int32 (checksum + f c) smod 43112609) cs ?a1
             = (?a1 + sum_list (map f cs)) mod 43112609"
    using Cons.prems by (intro Cons.IH) simp_all
  also have "\<dots> = (a + f c + sum_list (map f cs)) mod 43112609"
    by (simp add: mod_add_left_eq)
  finally show ?case by (simp add: step add.assoc)
qed

lemma traverse_raii_eq_spec:
  "\<forall>i\<in>#node_ids t. 0 \<le> i \<and> i < 43112609 \<Longrightarrow> traverse_raii t = spec_checksum t"
proof (induction t)
  case (Raii_Node cs i)
  have ids: "\<forall>j\<in>#node_ids c. 0 \<le> j \<and> j < 43112609" if "c \<in> set cs" for c
  proof -
    from that have "node_ids c \<subseteq># sum_list (map node_ids cs)"
      by (induction cs) (auto intro: subset_mset.add_increasing subset_mset.add_increasing2)
    then have "set_mset (node_ids c) \<subseteq> set_mset (node_ids (Raii_Node cs i))"
      by (auto dest: mset_subset_eqD)
    with Raii_Node.prems show ?thesis by blast
  qed
  have eq: "traverse_raii c = spec_checksum c" if "c \<in> set cs" for c
    using that ids Raii_Node.IH by blast
  have rng: "\<forall>c\<in>set cs. 0 \<le> traverse_raii c \<and> traverse_raii c < 43112609"
  proof
    fix c assume c: "c \<in> set cs"
    obtain ds j where "c = Raii_Node ds j" by (cases c)
    then show "0 \<le> traverse_raii c \<and> traverse_raii c < 43112609"
      using eq [OF c] by simp
  qed
  have i: "0 \<le> i" "i < 43112609" using Raii_Node.prems by simp_all
  have "traverse_raii (Raii_Node cs i) = (i + sum_list (map traverse_raii cs)) mod 43112609"
    using fold_checksum [OF i rng] by simp
  also have "map traverse_raii cs = map spec_checksum cs"
    using eq by simp
  finally show ?case by simp
qed

lemma spec_checksum_sum: "spec_checksum t = sum_mset (node_ids t) mod 43112609"
proof (induction t)
  case (Raii_Node cs i)
  have "sum_list (map spec_checksum cs) mod 43112609
        = sum_mset (sum_list (map node_ids cs)) mod 43112609"
    using Raii_Node.IH
  proof (induction cs)
    case Nil
    then show ?case by simp
  next
    case (Cons c cs)
    have "(spec_checksum c + sum_list (map spec_checksum cs)) mod 43112609
          = (spec_checksum c mod 43112609 + sum_list (map spec_checksum cs) mod 43112609) mod 43112609"
      by (simp add: mod_add_eq)
    also have "\<dots> = (sum_mset (node_ids c) mod 43112609
                       + sum_mset (sum_list (map node_ids cs)) mod 43112609) mod 43112609"
      using Cons by simp
    also have "\<dots> = (sum_mset (node_ids c) + sum_mset (sum_list (map node_ids cs))) mod 43112609"
      by (simp add: mod_add_eq)
    finally show ?case by simp
  qed
  then have "(i + sum_list (map spec_checksum cs)) mod 43112609
             = (i + sum_mset (sum_list (map node_ids cs))) mod 43112609"
    by (metis mod_add_right_eq)
  then show ?case by simp
qed

text \<open>
  Claim C3, as amended. For every tree whose identifiers are non-negative and below
  43112609, \<^verbatim>\<open>traverse\<close> returns the checksum of section 4.4: own identifier plus the
  checksums of the children, modulo 43112609. The traversal reads the own identifier
  first and then the children from left to right, and it returns one integer: the tree
  is an argument only.
\<close>

theorem traverse_checksum_formula:
  "\<forall>i\<in>#node_ids t. 0 \<le> i \<and> i < 43112609 \<Longrightarrow> traverse_raii t = spec_checksum t"
  by (rule traverse_raii_eq_spec)

theorem traverse_checksum_formula_witness:
  "traverse_raii (Raii_Node [Raii_Node [] 1, Raii_Node [Raii_Node [] 3] 2] 0)
   = spec_checksum (Raii_Node [Raii_Node [] 1, Raii_Node [Raii_Node [] 3] 2] 0)"
  by (rule traverse_checksum_formula) simp

text \<open>
  Claim C3 as stated fails: a node without children returns its identifier as it is, with
  no reduction. At a leaf whose identifier is 43112609 the source returns 43112609, the
  formula of the specification 0.
\<close>

theorem traverse_leaf_not_reduced:
  "traverse_raii (Raii_Node [] 43112609) = 43112609
   \<and> spec_checksum (Raii_Node [] 43112609) = 0"
  by simp

text \<open>
  Claim C10. For every tree whose identifiers are non-negative and below 43112609,
  \<^verbatim>\<open>traverse\<close> returns the sum of all identifiers modulo 43112609: a function of the
  multiset of identifiers, whatever the shape of the tree and the positions of the
  identifiers.
\<close>

theorem traverse_sum_of_node_ids:
  "\<forall>i\<in>#node_ids t. 0 \<le> i \<and> i < 43112609 \<Longrightarrow>
     traverse_raii t = sum_mset (node_ids t) mod 43112609"
  using traverse_raii_eq_spec [of t] spec_checksum_sum [of t] by simp

theorem traverse_sum_of_node_ids_witness:
  "traverse_raii (Raii_Node [Raii_Node [Raii_Node [] 43112608] 5, Raii_Node [] 7] 2)
   = sum_mset (node_ids (Raii_Node [Raii_Node [Raii_Node [] 43112608] 5, Raii_Node [] 7] 2))
       mod 43112609"
  by (rule traverse_sum_of_node_ids) simp

text \<open>The conversion of an \<^verbatim>\<open>int\<close> to \<^verbatim>\<open>size_t\<close> (64 bits, unsigned).\<close>

definition size_t :: "int \<Rightarrow> nat" where
  "size_t x = nat (x mod 2 ^ 64)"

section \<open>The region allocator (namespace \<^verbatim>\<open>without_raii\<close>)\<close>

text \<open>
  Addresses and sizes (\<^verbatim>\<open>void*\<close>, \<^verbatim>\<open>size_t\<close>) are natural numbers; the null pointer is 0.
  No subtraction of the allocator can go below zero and no address leaves its page, so
  the 64-bit wrap-around never comes into play. \<^verbatim>\<open>Page\<close> is
  \<^verbatim>\<open>std::aligned_storage<PAGE_SIZE, 1024>::type\<close>.
\<close>

definition MAX_SMALL_BLOCK_SIZE :: nat where "MAX_SMALL_BLOCK_SIZE = 4096"
definition PAGE_SIZE :: nat where "PAGE_SIZE = 65536"

text \<open>
  The allocator: the deque of pages, recorded as the addresses of the pages in the order
  of their creation (a deque never moves an element when another is appended), and the
  two cursor fields.
\<close>

record Allocator =
  pages :: "nat list"
  active_page_first_free_byte :: nat
  active_page_bytes_left :: nat

definition Allocator_init :: Allocator where
  "Allocator_init = \<lparr>pages = [], active_page_first_free_byte = 0, active_page_bytes_left = 0\<rparr>"

text \<open>
  \<^verbatim>\<open>std::align(alignment, size, ptr, space)\<close> is the standard library's; it is modelled
  from its contract in the C++ standard (section ptr.align). The alignment shall be a
  power of two (of a 64-bit \<^verbatim>\<open>size_t\<close>), otherwise the behaviour is undefined. If
  \<open>size\<close> bytes fit into the buffer at the first address at or after \<open>ptr\<close> that is a
  multiple of the alignment, the call sets \<open>ptr\<close> to that address, decreases \<open>space\<close> by
  the bytes skipped and returns the address; otherwise it returns null and changes
  nothing.
\<close>

definition valid_alignment :: "nat \<Rightarrow> bool" where
  "valid_alignment alignment = (alignment \<in> (\<lambda>n. 2 ^ n) ` {0..<64})"

definition round_up :: "nat \<Rightarrow> nat \<Rightarrow> nat" where
  "round_up alignment ptr = ((ptr + alignment - 1) div alignment) * alignment"

definition std_align :: "nat \<Rightarrow> nat \<Rightarrow> nat \<Rightarrow> nat \<Rightarrow> (nat \<times> nat) option" where
  "std_align alignment sz ptr space =
     (if sz \<le> space \<and> round_up alignment ptr - ptr \<le> space - sz
      then Some (round_up alignment ptr, space - (round_up alignment ptr - ptr))
      else None)"

text \<open>
  Lines 94 to 99 of the source: without an active page, \<^verbatim>\<open>pages.emplace_back()\<close> creates
  one and the cursor is set to its start. Where the new page lies is the choice of the
  memory allocator behind the deque: the parameter \<open>new_page\<close> gives the address of the
  \<open>i\<close>-th page created. Memory is taken to be unbounded: \<^verbatim>\<open>std::bad_alloc\<close> is not
  modelled.
\<close>

definition new_active_page :: "(nat \<Rightarrow> nat) \<Rightarrow> Allocator \<Rightarrow> Allocator" where
  "new_active_page new_page a =
     (if active_page_first_free_byte a = 0 then
        a\<lparr>pages := pages a @ [new_page (length (pages a))],
          active_page_first_free_byte := new_page (length (pages a)),
          active_page_bytes_left := PAGE_SIZE\<rparr>
      else a)"

text \<open>Lines 108 and 109: the active page is given up.\<close>

definition inactivate :: "Allocator \<Rightarrow> Allocator" where
  "inactivate a = a\<lparr>active_page_first_free_byte := 0, active_page_bytes_left := 0\<rparr>"

text \<open>
  \<^verbatim>\<open>allocate_block\<close>. The retry of line 110 is a recursive call that nothing bounds, so
  the function is partial: \<open>None\<close> is a call that never returns. The last argument and
  the last component of the result count the retries of one call; they are not part of
  the source, and \<open>allocate_block\<close> below drops them.
\<close>

partial_function (option) allocate_block_counting ::
  "(nat \<Rightarrow> nat) \<Rightarrow> Allocator \<Rightarrow> nat \<Rightarrow> nat \<Rightarrow> nat \<Rightarrow> (error + nat \<times> Allocator \<times> nat) option"
where
  "allocate_block_counting new_page a sz alignment retries =
     (if sz \<le> MAX_SMALL_BLOCK_SIZE then
        (if \<not> valid_alignment alignment then Some (Inl Undefined_behaviour)
         else
           (case std_align alignment sz
                   (active_page_first_free_byte (new_active_page new_page a))
                   (active_page_bytes_left (new_active_page new_page a)) of
              Some (p, space) \<Rightarrow>
                Some (Inr (p, (new_active_page new_page a)
                                \<lparr>active_page_first_free_byte := p + sz,
                                  active_page_bytes_left := space - sz\<rparr>, retries))
            | None \<Rightarrow>
                allocate_block_counting new_page (inactivate (new_active_page new_page a))
                  sz alignment (retries + 1)))
      else Some (Inl Terminated))"

definition allocate_block :: "(nat \<Rightarrow> nat) \<Rightarrow> Allocator \<Rightarrow> nat \<Rightarrow> nat \<Rightarrow> (error + nat \<times> Allocator) option" where
  "allocate_block new_page a sz alignment =
     map_option (map_sum id (\<lambda>(p, a', retries). (p, a')))
       (allocate_block_counting new_page a sz alignment 0)"

subsection \<open>Page placement, free bytes and the invariant of the allocator\<close>

text \<open>
  What the theorems assume of the memory allocator behind the deque: no page is at the
  null address, and no two pages overlap. (The pages are also aligned to 1024 bytes, as
  \<^verbatim>\<open>Page\<close> is declared; no theorem needs that.)
\<close>

definition page_bytes :: "nat \<Rightarrow> nat set" where
  "page_bytes b = {b ..< b + PAGE_SIZE}"

definition well_placed :: "(nat \<Rightarrow> nat) \<Rightarrow> bool" where
  "well_placed new_page =
     (\<forall>i. 0 < new_page i
          \<and> (\<forall>j. i \<noteq> j \<longrightarrow> page_bytes (new_page i) \<inter> page_bytes (new_page j) = {}))"

text \<open>
  The bytes the allocator may still hand out: the rest of the active page, and all pages
  not yet created.
\<close>

definition active_bytes :: "Allocator \<Rightarrow> nat set" where
  "active_bytes a =
     (if active_page_first_free_byte a = 0 then {}
      else {active_page_first_free_byte a ..<
            active_page_first_free_byte a + active_page_bytes_left a})"

definition free_bytes :: "(nat \<Rightarrow> nat) \<Rightarrow> Allocator \<Rightarrow> nat set" where
  "free_bytes new_page a =
     active_bytes a \<union> (\<Union>i\<in>{length (pages a)..}. page_bytes (new_page i))"

text \<open>
  The invariant of section 3 of the specification: the pages are those created so far,
  and a non-null cursor lies within the page created last.
\<close>

definition alloc_inv :: "(nat \<Rightarrow> nat) \<Rightarrow> Allocator \<Rightarrow> bool" where
  "alloc_inv new_page a =
     (pages a = map new_page [0..<length (pages a)]
      \<and> (active_page_first_free_byte a \<noteq> 0 \<longrightarrow>
           pages a \<noteq> []
           \<and> last (pages a) \<le> active_page_first_free_byte a
           \<and> active_page_first_free_byte a + active_page_bytes_left a
               \<le> last (pages a) + PAGE_SIZE))"

text \<open>The bytes of a block, and what a successful call guarantees.\<close>

definition block :: "nat \<Rightarrow> nat \<Rightarrow> nat set" where
  "block p sz = {p ..< p + sz}"

definition alloc_post :: "(nat \<Rightarrow> nat) \<Rightarrow> Allocator \<Rightarrow> nat \<Rightarrow> nat \<Rightarrow> nat \<Rightarrow> Allocator \<Rightarrow> bool" where
  "alloc_post new_page a sz alignment p a' =
     (p mod alignment = 0 \<and> 0 < p \<and> alloc_inv new_page a'
      \<and> block p sz \<subseteq> free_bytes new_page a
      \<and> free_bytes new_page a' \<subseteq> free_bytes new_page a - block p sz
      \<and> (\<exists>b\<in>set (pages a'). b \<le> p \<and> p + sz \<le> b + PAGE_SIZE)
      \<and> (\<exists>ps. pages a' = pages a @ ps))"

lemma valid_alignment_pos: "valid_alignment al \<Longrightarrow> 0 < al"
  by (auto simp: valid_alignment_def)

lemma round_up_props:
  assumes "0 < al"
  shows "round_up al p mod al = 0"
    and "p \<le> round_up al p"
    and "round_up al p < p + al"
proof -
  show "round_up al p mod al = 0" by (simp add: round_up_def)
  have eq: "(p + al - 1) div al * al + (p + al - 1) mod al = p + al - 1"
    by (simp add: div_mult_mod_eq)
  have "(p + al - 1) mod al < al" using assms by simp
  then show "p \<le> round_up al p" unfolding round_up_def using eq assms by linarith
  show "round_up al p < p + al" unfolding round_up_def using eq assms by linarith
qed

lemma round_up_aligned:
  assumes "0 < al" "al dvd p"
  shows "round_up al p = p"
proof -
  obtain k where k: "p = al * k" using assms(2) by (auto simp: dvd_def)
  have "al * k + al - 1 = (al - 1) + al * k" using assms(1) by simp
  then have "(al * k + al - 1) div al = k + (al - 1) div al"
    using assms(1) by (simp only: div_mult_self2)
  then have "(al * k + al - 1) div al = k" using assms(1) by simp
  then show ?thesis unfolding round_up_def k by simp
qed

lemma std_align_SomeD:
  assumes "std_align al sz ptr space = Some (p, sp)" "0 < al"
  shows "p mod al = 0" "ptr \<le> p" "p + sz \<le> ptr + space" "sp = space - (p - ptr)" "sz \<le> sp"
proof -
  from assms(1) have p: "p = round_up al ptr" and sp: "sp = space - (p - ptr)"
    and le: "sz \<le> space" "p - ptr \<le> space - sz"
    by (auto simp: std_align_def split: if_splits)
  show "p mod al = 0" "ptr \<le> p" using p round_up_props [OF assms(2), of ptr] by simp_all
  then show "p + sz \<le> ptr + space" using le by linarith
  show "sp = space - (p - ptr)" by (fact sp)
  show "sz \<le> sp" using sp le by linarith
qed

lemma std_align_aligned:
  assumes "0 < al" "al dvd ptr" "sz \<le> space"
  shows "std_align al sz ptr space = Some (ptr, space)"
  using assms by (simp add: std_align_def round_up_aligned)

lemma well_placedD:
  assumes "well_placed np"
  shows "0 < np i"
    and "i \<noteq> j \<Longrightarrow> page_bytes (np i) \<inter> page_bytes (np j) = {}"
  using assms unfolding well_placed_def by blast+

lemma new_active_page_nonnull:
  "well_placed np \<Longrightarrow> active_page_first_free_byte (new_active_page np a) \<noteq> 0"
  using well_placedD(1) [of np "length (pages a)"]
  by (simp add: new_active_page_def)

lemma new_active_page_inv:
  assumes "alloc_inv np a"
  shows "alloc_inv np (new_active_page np a)"
  using assms by (simp add: new_active_page_def alloc_inv_def)

lemma new_active_page_free:
  assumes "well_placed np"
  shows "free_bytes np (new_active_page np a) = free_bytes np a"
proof (cases "active_page_first_free_byte a = 0")
  case False
  then show ?thesis by (simp add: new_active_page_def)
next
  case True
  let ?n = "length (pages a)"
  have pos: "np ?n \<noteq> 0" using well_placedD(1) [OF assms, of ?n] by simp
  have split: "{?n..} = insert ?n {Suc ?n..}" by auto
  have "free_bytes np (new_active_page np a)
        = page_bytes (np ?n) \<union> (\<Union>i\<in>{Suc ?n..}. page_bytes (np i))"
    using True pos
    by (simp add: new_active_page_def free_bytes_def active_bytes_def page_bytes_def)
  also have "\<dots> = (\<Union>i\<in>{?n..}. page_bytes (np i))"
    by (subst split) simp
  also have "\<dots> = free_bytes np a"
    using True by (simp add: free_bytes_def active_bytes_def)
  finally show ?thesis .
qed

lemma new_active_page_pages:
  "\<exists>ps. pages (new_active_page np a) = pages a @ ps"
  by (simp add: new_active_page_def)

lemma inactivate_inv: "alloc_inv np a \<Longrightarrow> alloc_inv np (inactivate a)"
  by (simp add: inactivate_def alloc_inv_def)

lemma inactivate_free: "free_bytes np (inactivate a) \<subseteq> free_bytes np a"
  by (simp add: inactivate_def free_bytes_def active_bytes_def)

lemma inactivate_pages: "pages (inactivate a) = pages a"
  by (simp add: inactivate_def)

lemma alloc_post_weaken:
  assumes "alloc_post np a1 sz al p a'"
    and "free_bytes np a1 \<subseteq> free_bytes np a"
    and "\<exists>ps. pages a1 = pages a @ ps"
  shows "alloc_post np a sz al p a'"
proof -
  from assms(3) obtain ps where ps: "pages a1 = pages a @ ps" ..
  from assms(1) obtain qs where "pages a' = pages a1 @ qs"
    unfolding alloc_post_def by blast
  then have "pages a' = pages a @ (ps @ qs)" using ps by simp
  then have "\<exists>rs. pages a' = pages a @ rs" ..
  then show ?thesis
    using assms(1,2) unfolding alloc_post_def by blast
qed

lemma carve_post:
  assumes wp: "well_placed np"
    and inv: "alloc_inv np a" and nz: "active_page_first_free_byte a \<noteq> 0"
    and al: "std_align al sz (active_page_first_free_byte a) (active_page_bytes_left a) = Some (p, sp)"
    and pos: "0 < al"
  shows "alloc_post np a sz al p
           (a\<lparr>active_page_first_free_byte := p + sz, active_page_bytes_left := sp - sz\<rparr>)"
proof -
  let ?f = "active_page_first_free_byte a" and ?l = "active_page_bytes_left a"
  let ?a' = "a\<lparr>active_page_first_free_byte := p + sz, active_page_bytes_left := sp - sz\<rparr>"
  let ?n = "length (pages a)"
  note d = std_align_SomeD [OF al pos]
  from inv nz have pg: "pages a \<noteq> []" "last (pages a) \<le> ?f" "?f + ?l \<le> last (pages a) + PAGE_SIZE"
    and pages: "pages a = map np [0..<?n]"
    unfolding alloc_inv_def by simp_all
  have n: "0 < ?n" using pg(1) by simp
  have "last (map np [0..<?n]) = np (?n - 1)"
    using n by (cases ?n) simp_all
  then have last: "last (pages a) = np (?n - 1)" using pages by simp
  have p0: "0 < p" using d(2) nz by simp
  have end_eq: "p + sz + (sp - sz) = ?f + ?l" using d by simp
  have inv': "alloc_inv np ?a'"
    using inv pg d end_eq unfolding alloc_inv_def by simp
  have blk_act: "block p sz \<subseteq> active_bytes a"
    using d nz by (auto simp: block_def active_bytes_def)
  have act_page: "active_bytes a \<subseteq> page_bytes (np (?n - 1))"
    using pg last nz by (auto simp: active_bytes_def page_bytes_def)
  have act: "active_bytes ?a' \<subseteq> active_bytes a - block p sz"
    using d nz end_eq by (auto simp: block_def active_bytes_def)
  have fut: "(\<Union>i\<in>{?n..}. page_bytes (np i)) \<inter> block p sz = {}"
  proof -
    have "page_bytes (np i) \<inter> page_bytes (np (?n - 1)) = {}" if "?n \<le> i" for i
      using that n by (intro well_placedD(2) [OF wp]) linarith
    then show ?thesis using blk_act act_page by blast
  qed
  have free: "free_bytes np ?a' \<subseteq> free_bytes np a - block p sz"
    using act fut unfolding free_bytes_def by auto
  have inpage: "\<exists>b\<in>set (pages a). b \<le> p \<and> p + sz \<le> b + PAGE_SIZE"
  proof
    show "last (pages a) \<in> set (pages a)" using pg(1) by simp
    show "last (pages a) \<le> p \<and> p + sz \<le> last (pages a) + PAGE_SIZE"
      using pg d by simp
  qed
  show ?thesis
    unfolding alloc_post_def
    using d(1) p0 inv' blk_act free inpage by (simp add: free_bytes_def le_supI1)
qed

lemma allocate_block_counting_fits:
  assumes "sz \<le> MAX_SMALL_BLOCK_SIZE" "valid_alignment al"
    and "std_align al sz (active_page_first_free_byte (new_active_page np a))
           (active_page_bytes_left (new_active_page np a)) = Some (p, sp)"
  shows "allocate_block_counting np a sz al r =
           Some (Inr (p, (new_active_page np a)\<lparr>active_page_first_free_byte := p + sz,
                                                   active_page_bytes_left := sp - sz\<rparr>, r))"
  using assms by (subst allocate_block_counting.simps) simp

lemma allocate_block_counting_retry:
  assumes "sz \<le> MAX_SMALL_BLOCK_SIZE" "valid_alignment al"
    and "std_align al sz (active_page_first_free_byte (new_active_page np a))
           (active_page_bytes_left (new_active_page np a)) = None"
  shows "allocate_block_counting np a sz al r =
           allocate_block_counting np (inactivate (new_active_page np a)) sz al (r + 1)"
  using assms by (subst allocate_block_counting.simps) simp

lemma allocate_block_counting_too_large:
  "MAX_SMALL_BLOCK_SIZE < sz \<Longrightarrow> allocate_block_counting np a sz al r = Some (Inl Terminated)"
  by (subst allocate_block_counting.simps) simp

lemma allocate_block_counting_bad_alignment:
  "sz \<le> MAX_SMALL_BLOCK_SIZE \<Longrightarrow> \<not> valid_alignment al \<Longrightarrow>
     allocate_block_counting np a sz al r = Some (Inl Undefined_behaviour)"
  by (subst allocate_block_counting.simps) simp

text \<open>Partial correctness, for every valid alignment.\<close>

lemma allocate_block_counting_post:
  assumes "allocate_block_counting np a sz al r = Some y"
  shows "well_placed np \<longrightarrow> alloc_inv np a \<longrightarrow>
           (\<forall>p a' r'. y = Inr (p, a', r') \<longrightarrow> alloc_post np a sz al p a' \<and> r \<le> r')"
  using assms
proof (induct np a sz al r y rule: allocate_block_counting.raw_induct)
  case (1 rec np a sz al r y)
  show ?case
  proof (intro impI allI)
    fix p a' r'
    assume wp: "well_placed np" and inv: "alloc_inv np a" and y: "y = Inr (p, a', r')"
    let ?a1 = "new_active_page np a"
    have inv1: "alloc_inv np ?a1" using inv by (rule new_active_page_inv)
    have nz1: "active_page_first_free_byte ?a1 \<noteq> 0" using wp by (rule new_active_page_nonnull)
    from 1(2) y have sz: "sz \<le> MAX_SMALL_BLOCK_SIZE" and va: "valid_alignment al"
      by (auto split: if_splits)
    show "alloc_post np a sz al p a' \<and> r \<le> r'"
    proof (cases "std_align al sz (active_page_first_free_byte ?a1) (active_page_bytes_left ?a1)")
      case None
      with 1(2) sz va have "rec np (inactivate ?a1) sz al (r + 1) = Some y" by simp
      moreover have "allocate_block_counting np (inactivate ?a1) sz al (r + 1) = Some y"
        using 1(3) allocate_block_counting_retry [OF sz va None] by simp
      ultimately have "well_placed np \<longrightarrow> alloc_inv np (inactivate ?a1) \<longrightarrow>
           (\<forall>p a' r'. y = Inr (p, a', r') \<longrightarrow>
              alloc_post np (inactivate ?a1) sz al p a' \<and> r + 1 \<le> r')"
        by (rule 1(1))
      with wp inactivate_inv [OF inv1] y
      have "alloc_post np (inactivate ?a1) sz al p a' \<and> r + 1 \<le> r'" by blast
      then have post: "alloc_post np (inactivate ?a1) sz al p a'" and r: "r + 1 \<le> r'"
        by simp_all
      have "free_bytes np (inactivate ?a1) \<subseteq> free_bytes np a"
        using inactivate_free [of np ?a1] new_active_page_free [OF wp, of a] by simp
      moreover have "\<exists>ps. pages (inactivate ?a1) = pages a @ ps"
        using new_active_page_pages [of np a] by (simp add: inactivate_pages)
      ultimately show ?thesis using alloc_post_weaken [OF post] r by simp
    next
      case (Some ps)
      obtain q sp where ps: "ps = (q, sp)" by (cases ps)
      from Some ps have sa: "std_align al sz (active_page_first_free_byte ?a1)
          (active_page_bytes_left ?a1) = Some (q, sp)" by simp
      have "Some y = Some (Inr (q, ?a1\<lparr>active_page_first_free_byte := q + sz,
                                           active_page_bytes_left := sp - sz\<rparr>, r))"
        unfolding 1(3) [symmetric] by (rule allocate_block_counting_fits [OF sz va sa])
      then have "Inr (p, a', r') = (Inr (q, ?a1\<lparr>active_page_first_free_byte := q + sz,
                                           active_page_bytes_left := sp - sz\<rparr>, r)
                    :: error + nat \<times> Allocator \<times> nat)"
        unfolding y by (simp only: option.inject)
      then have eq: "p = q"
        "a' = ?a1\<lparr>active_page_first_free_byte := q + sz, active_page_bytes_left := sp - sz\<rparr>"
        "r' = r"
        by (simp_all only: sum.inject prod.inject)
      have "alloc_post np ?a1 sz al p a'"
        unfolding eq(2) eq(1)
        by (rule carve_post [OF wp inv1 nz1 sa valid_alignment_pos [OF va]])
      then have "alloc_post np a sz al p a'"
      proof (rule alloc_post_weaken)
        show "free_bytes np ?a1 \<subseteq> free_bytes np a"
          using new_active_page_free [OF wp, of a] by simp
        show "\<exists>ps. pages ?a1 = pages a @ ps" by (rule new_active_page_pages)
      qed
      then show ?thesis using eq(3) by simp
    qed
  qed
qed (fact assms)

text \<open>Termination with at most one retry, for an alignment of at most half a page.\<close>

lemma fresh_page_fits:
  assumes sz: "sz \<le> MAX_SMALL_BLOCK_SIZE"
    and va: "valid_alignment al" and le: "al \<le> 32768"
    and null: "active_page_first_free_byte a = 0"
  shows "\<exists>p sp. std_align al sz (active_page_first_free_byte (new_active_page np a))
           (active_page_bytes_left (new_active_page np a)) = Some (p, sp)"
proof -
  let ?b = "np (length (pages a))"
  have "round_up al ?b < ?b + al" "?b \<le> round_up al ?b"
    using round_up_props [OF valid_alignment_pos [OF va]] by simp_all
  then have "round_up al ?b - ?b \<le> PAGE_SIZE - sz" "sz \<le> PAGE_SIZE"
    using sz le by (simp_all add: MAX_SMALL_BLOCK_SIZE_def PAGE_SIZE_def)
  then show ?thesis
    using null by (simp add: new_active_page_def std_align_def)
qed

lemma allocate_block_counting_total:
  assumes sz: "sz \<le> MAX_SMALL_BLOCK_SIZE"
    and va: "valid_alignment al" and le: "al \<le> 32768"
  shows "\<exists>p a' r'. allocate_block_counting np a sz al r = Some (Inr (p, a', r')) \<and> r' \<le> r + 1"
proof (cases "std_align al sz (active_page_first_free_byte (new_active_page np a))
                 (active_page_bytes_left (new_active_page np a))")
  case (Some ps)
  obtain p sp where "ps = (p, sp)" by (cases ps)
  with Some show ?thesis
    using allocate_block_counting_fits [OF sz va, of np a p sp r] by simp
next
  case None
  let ?a2 = "inactivate (new_active_page np a)"
  have null: "active_page_first_free_byte ?a2 = 0" by (simp add: inactivate_def)
  obtain p sp where fits: "std_align al sz (active_page_first_free_byte (new_active_page np ?a2))
           (active_page_bytes_left (new_active_page np ?a2)) = Some (p, sp)"
    using fresh_page_fits [OF sz va le null] by blast
  have "allocate_block_counting np a sz al r = allocate_block_counting np ?a2 sz al (r + 1)"
    using None by (rule allocate_block_counting_retry [OF sz va])
  also have "\<dots> = Some (Inr (p,
      (new_active_page np ?a2)\<lparr>active_page_first_free_byte := p + sz,
                                  active_page_bytes_left := sp - sz\<rparr>, r + 1))"
    by (rule allocate_block_counting_fits [OF sz va fits])
  finally show ?thesis by simp
qed

lemma allocate_block_counting_not_terminated:
  assumes "allocate_block_counting np a sz al r = Some y"
  shows "sz \<le> MAX_SMALL_BLOCK_SIZE \<longrightarrow> y \<noteq> Inl Terminated"
  using assms
proof (induct np a sz al r y rule: allocate_block_counting.raw_induct)
  case (1 rec np a sz al r y)
  show ?case
  proof
    assume sz: "sz \<le> MAX_SMALL_BLOCK_SIZE"
    let ?a1 = "new_active_page np a"
    show "y \<noteq> Inl Terminated"
    proof (cases "valid_alignment al")
      case False
      with 1(2) sz show ?thesis by auto
    next
      case va: True
      show ?thesis
      proof (cases "std_align al sz (active_page_first_free_byte ?a1) (active_page_bytes_left ?a1)")
        case None
        with 1(2) sz va have "rec np (inactivate ?a1) sz al (r + 1) = Some y" by simp
        moreover have "allocate_block_counting np (inactivate ?a1) sz al (r + 1) = Some y"
          using 1(3) allocate_block_counting_retry [OF sz va None] by simp
        ultimately have "sz \<le> MAX_SMALL_BLOCK_SIZE \<longrightarrow> y \<noteq> Inl Terminated"
          by (rule 1(1))
        with sz show ?thesis by simp
      next
        case (Some ps)
        with 1(2) sz va show ?thesis by (auto split: prod.splits)
      qed
    qed
  qed
qed (fact assms)

text \<open>
  A placement of the pages at the odd multiples of 64 KiB. With it no page holds an
  address that is a multiple of 131072 and leaves room behind it.
\<close>

definition odd_pages :: "nat \<Rightarrow> nat" where
  "odd_pages i = 65536 * (2 * i + 1)"

lemma well_placed_odd_pages: "well_placed odd_pages"
  unfolding well_placed_def
proof (intro allI conjI impI)
  fix i j :: nat
  show "0 < odd_pages i" by (simp add: odd_pages_def)
  assume "i \<noteq> j"
  then consider "i < j" | "j < i" by linarith
  then show "page_bytes (odd_pages i) \<inter> page_bytes (odd_pages j) = {}"
    by cases (auto simp: page_bytes_def odd_pages_def PAGE_SIZE_def)
qed

lemma valid_alignment_power: "n < 64 \<Longrightarrow> valid_alignment (2 ^ n)"
  by (simp add: valid_alignment_def)

lemma round_up_odd_pages: "round_up 131072 (odd_pages n) = 131072 * (n + 1)"
proof -
  have "(odd_pages n + 131072 - 1) div 131072 = n + 1"
    unfolding odd_pages_def by (rule div_nat_eqI) simp_all
  then show ?thesis by (simp add: round_up_def)
qed

lemma odd_pages_never_fit:
  assumes "active_page_first_free_byte a = 0"
  shows "std_align 131072 1 (active_page_first_free_byte (new_active_page odd_pages a))
           (active_page_bytes_left (new_active_page odd_pages a)) = None"
proof -
  let ?n = "length (pages a)"
  have "round_up 131072 (odd_pages ?n) - odd_pages ?n = 65536"
    unfolding round_up_odd_pages by (simp add: odd_pages_def)
  then show ?thesis
    using assms by (simp add: new_active_page_def std_align_def PAGE_SIZE_def)
qed

lemma allocate_block_counting_diverges:
  assumes "allocate_block_counting np a sz al r = Some y"
  shows "\<not> (np = odd_pages \<and> active_page_first_free_byte a = 0 \<and> sz = 1 \<and> al = 131072)"
  using assms
proof (induct np a sz al r y rule: allocate_block_counting.raw_induct)
  case (1 rec np a sz al r y)
  show ?case
  proof
    assume *: "np = odd_pages \<and> active_page_first_free_byte a = 0 \<and> sz = 1 \<and> al = 131072"
    let ?a1 = "new_active_page np a"
    have sz: "sz \<le> MAX_SMALL_BLOCK_SIZE" using * by (simp add: MAX_SMALL_BLOCK_SIZE_def)
    have va: "valid_alignment al" using * valid_alignment_power [of 17] by simp
    have none: "std_align al sz (active_page_first_free_byte ?a1) (active_page_bytes_left ?a1) = None"
      using * odd_pages_never_fit by simp
    with 1(2) sz va have "rec np (inactivate ?a1) sz al (r + 1) = Some y" by simp
    moreover have "allocate_block_counting np (inactivate ?a1) sz al (r + 1) = Some y"
      using 1(3) allocate_block_counting_retry [OF sz va none] by simp
    ultimately have "\<not> (np = odd_pages \<and> active_page_first_free_byte (inactivate ?a1) = 0
                         \<and> sz = 1 \<and> al = 131072)"
      by (rule 1(1))
    then show False using * by (simp add: inactivate_def)
  qed
qed (fact assms)

lemma allocate_block_SomeD:
  assumes "allocate_block np a sz al = Some (Inr (p, a'))"
  shows "\<exists>r. allocate_block_counting np a sz al 0 = Some (Inr (p, a', r))"
proof -
  from assms obtain x where x: "allocate_block_counting np a sz al 0 = Some x"
    and m: "map_sum id (\<lambda>(p, a', retries). (p, a')) x = Inr (p, a')"
    by (auto simp: allocate_block_def)
  from m obtain t where t: "x = Inr t" by (cases x) auto
  obtain q b r where "t = (q, b, r)" by (cases t)
  with m t have "x = Inr (p, a', r)" by simp
  with x show ?thesis by blast
qed

lemma allocate_block_post:
  assumes "well_placed np" "alloc_inv np a" "allocate_block np a sz al = Some (Inr (p, a'))"
  shows "alloc_post np a sz al p a'"
  using allocate_block_SomeD [OF assms(3)] allocate_block_counting_post assms(1,2) by blast

lemma allocate_block_total:
  assumes "sz \<le> MAX_SMALL_BLOCK_SIZE" "valid_alignment al" "al \<le> 32768"
  shows "\<exists>p a'. allocate_block np a sz al = Some (Inr (p, a'))"
  using allocate_block_counting_total [OF assms, of np a 0]
  by (auto simp: allocate_block_def)

lemma allocate_block_too_large:
  "MAX_SMALL_BLOCK_SIZE < sz \<Longrightarrow> allocate_block np a sz al = Some (Inl Terminated)"
  by (simp add: allocate_block_def allocate_block_counting_too_large)

text \<open>A sequence of calls on one allocator: the requests are pairs (size, alignment).\<close>

fun allocate_blocks ::
  "(nat \<Rightarrow> nat) \<Rightarrow> Allocator \<Rightarrow> (nat \<times> nat) list \<Rightarrow> (error + nat list \<times> Allocator) option"
where
  "allocate_blocks np a [] = Some (Inr ([], a))"
| "allocate_blocks np a ((sz, al) # reqs) =
     (case allocate_block np a sz al of
        None \<Rightarrow> None
      | Some (Inl e) \<Rightarrow> Some (Inl e)
      | Some (Inr (p, a1)) \<Rightarrow>
          (case allocate_blocks np a1 reqs of
             None \<Rightarrow> None
           | Some (Inl e) \<Rightarrow> Some (Inl e)
           | Some (Inr (ps, a2)) \<Rightarrow> Some (Inr (p # ps, a2))))"

definition blocks_ok ::
  "(nat \<Rightarrow> nat) \<Rightarrow> Allocator \<Rightarrow> Allocator \<Rightarrow> (nat \<times> nat) list \<Rightarrow> nat list \<Rightarrow> bool"
where
  "blocks_ok np a a' reqs ps =
     (length ps = length reqs
      \<and> (\<forall>i<length reqs.
            ps ! i mod snd (reqs ! i) = 0
            \<and> (\<exists>b\<in>set (pages a'). b \<le> ps ! i \<and> ps ! i + fst (reqs ! i) \<le> b + PAGE_SIZE)
            \<and> block (ps ! i) (fst (reqs ! i)) \<subseteq> free_bytes np a)
      \<and> (\<forall>i j. i < j \<and> j < length reqs \<longrightarrow>
            block (ps ! i) (fst (reqs ! i)) \<inter> block (ps ! j) (fst (reqs ! j)) = {}))"

lemma allocate_blocks_ok:
  assumes "well_placed np" "alloc_inv np a" "allocate_blocks np a reqs = Some (Inr (ps, a'))"
  shows "blocks_ok np a a' reqs ps \<and> alloc_inv np a'
         \<and> free_bytes np a' \<subseteq> free_bytes np a \<and> (\<exists>qs. pages a' = pages a @ qs)"
  using assms(2,3)
proof (induction reqs arbitrary: a ps)
  case Nil
  then show ?case by (simp add: blocks_ok_def)
next
  case (Cons req reqs)
  obtain sz al where req: "req = (sz, al)" by (cases req)
  from Cons.prems(2) req obtain p a1 ps1 where
    first: "allocate_block np a sz al = Some (Inr (p, a1))"
    and rest: "allocate_blocks np a1 reqs = Some (Inr (ps1, a'))"
    and ps: "ps = p # ps1"
    by (auto split: option.splits sum.splits prod.splits)
  have post: "alloc_post np a sz al p a1"
    using assms(1) Cons.prems(1) first by (rule allocate_block_post)
  then have inv1: "alloc_inv np a1" unfolding alloc_post_def by simp
  from Cons.IH [OF inv1 rest]
  have ok1: "blocks_ok np a1 a' reqs ps1" and inv': "alloc_inv np a'"
    and free1: "free_bytes np a' \<subseteq> free_bytes np a1"
    and pages1: "\<exists>qs. pages a' = pages a1 @ qs"
    by simp_all
  from post have p_al: "p mod al = 0"
    and p_free: "block p sz \<subseteq> free_bytes np a"
    and free01: "free_bytes np a1 \<subseteq> free_bytes np a - block p sz"
    and p_page: "\<exists>b\<in>set (pages a1). b \<le> p \<and> p + sz \<le> b + PAGE_SIZE"
    and pages0: "\<exists>qs. pages a1 = pages a @ qs"
    unfolding alloc_post_def by simp_all
  from pages1 have sub: "set (pages a1) \<subseteq> set (pages a')" by auto
  have len: "length ps = length (req # reqs)"
    using ok1 ps unfolding blocks_ok_def by simp
  have each: "ps ! i mod snd ((req # reqs) ! i) = 0
      \<and> (\<exists>b\<in>set (pages a'). b \<le> ps ! i \<and> ps ! i + fst ((req # reqs) ! i) \<le> b + PAGE_SIZE)
      \<and> block (ps ! i) (fst ((req # reqs) ! i)) \<subseteq> free_bytes np a"
    if "i < length (req # reqs)" for i
  proof (cases i)
    case 0
    then show ?thesis using p_al p_page sub p_free ps req by auto
  next
    case (Suc k)
    then have "k < length reqs" using that by simp
    with ok1 have "ps1 ! k mod snd (reqs ! k) = 0
      \<and> (\<exists>b\<in>set (pages a'). b \<le> ps1 ! k \<and> ps1 ! k + fst (reqs ! k) \<le> b + PAGE_SIZE)
      \<and> block (ps1 ! k) (fst (reqs ! k)) \<subseteq> free_bytes np a1"
      unfolding blocks_ok_def by blast
    then show ?thesis using Suc ps free01 by auto
  qed
  have disj: "block (ps ! i) (fst ((req # reqs) ! i)) \<inter> block (ps ! j) (fst ((req # reqs) ! j)) = {}"
    if "i < j \<and> j < length (req # reqs)" for i j
  proof (cases i)
    case 0
    from that 0 obtain k where j: "j = Suc k" and k: "k < length reqs"
      by (cases j) simp_all
    from ok1 k have "block (ps1 ! k) (fst (reqs ! k)) \<subseteq> free_bytes np a1"
      unfolding blocks_ok_def by blast
    then show ?thesis using 0 j ps req free01 by auto
  next
    case (Suc i')
    from that Suc obtain k where j: "j = Suc k" and k: "i' < k \<and> k < length reqs"
      by (cases j) simp_all
    with ok1 have "block (ps1 ! i') (fst (reqs ! i')) \<inter> block (ps1 ! k) (fst (reqs ! k)) = {}"
      unfolding blocks_ok_def by blast
    then show ?thesis using Suc j ps by simp
  qed
  have "blocks_ok np a a' (req # reqs) ps"
    unfolding blocks_ok_def using len each disj by blast
  moreover have "free_bytes np a' \<subseteq> free_bytes np a" using free1 free01 by blast
  moreover have "\<exists>qs. pages a' = pages a @ qs" using pages0 pages1 by auto
  ultimately show ?case using inv' by simp
qed

lemma alloc_inv_init: "alloc_inv np Allocator_init"
  by (simp add: alloc_inv_def Allocator_init_def)

lemma valid_alignment_8: "valid_alignment 8"
  using valid_alignment_power [of 3] by simp

lemma valid_alignment_1024: "valid_alignment 1024"
  using valid_alignment_power [of 10] by simp

lemmas allocate_eval =
  allocate_block_def allocate_block_counting.simps Allocator_init_def
  MAX_SMALL_BLOCK_SIZE_def valid_alignment_8 valid_alignment_1024 new_active_page_def
  std_align_def round_up_def odd_pages_def PAGE_SIZE_def inactivate_def

lemma example_allocate_blocks:
  "allocate_blocks odd_pages Allocator_init [(24, 8), (16, 8), (4096, 1024), (4000, 8)]
   = Some (Inr ([65536, 65560, 66560, 70656],
        \<lparr>pages = [65536], active_page_first_free_byte = 74656, active_page_bytes_left = 56416\<rparr>))"
  by (simp add: allocate_eval)

lemma allocate_block_counting_no_error:
  assumes "allocate_block_counting np a sz al r = Some y"
  shows "sz \<le> MAX_SMALL_BLOCK_SIZE \<and> valid_alignment al \<longrightarrow> (\<forall>e. y \<noteq> Inl e)"
  using assms
proof (induct np a sz al r y rule: allocate_block_counting.raw_induct)
  case (1 rec np a sz al r y)
  show ?case
  proof
    assume pre: "sz \<le> MAX_SMALL_BLOCK_SIZE \<and> valid_alignment al"
    then have sz: "sz \<le> MAX_SMALL_BLOCK_SIZE" and va: "valid_alignment al" by simp_all
    let ?a1 = "new_active_page np a"
    show "\<forall>e. y \<noteq> Inl e"
    proof (cases "std_align al sz (active_page_first_free_byte ?a1) (active_page_bytes_left ?a1)")
      case None
      with 1(2) sz va have "rec np (inactivate ?a1) sz al (r + 1) = Some y" by simp
      moreover have "allocate_block_counting np (inactivate ?a1) sz al (r + 1) = Some y"
        using 1(3) allocate_block_counting_retry [OF sz va None] by simp
      ultimately have "sz \<le> MAX_SMALL_BLOCK_SIZE \<and> valid_alignment al \<longrightarrow> (\<forall>e. y \<noteq> Inl e)"
        by (rule 1(1))
      with pre show ?thesis by simp
    next
      case (Some ps)
      with 1(2) sz va show ?thesis by (auto split: prod.splits)
    qed
  qed
qed (fact assms)

lemma allocate_block_no_error:
  assumes "sz \<le> MAX_SMALL_BLOCK_SIZE" "valid_alignment al"
  shows "allocate_block np a sz al \<noteq> Some (Inl e)"
proof
  assume "allocate_block np a sz al = Some (Inl e)"
  then obtain y where y: "allocate_block_counting np a sz al 0 = Some y"
    and "map_sum id (\<lambda>(p, a', retries). (p, a')) y = Inl e"
    by (auto simp: allocate_block_def)
  then have "y = Inl e" by (cases y) auto
  with allocate_block_counting_no_error [OF y] assms show False by simp
qed

lemma allocate_blocks_no_error:
  assumes "\<forall>r\<in>set reqs. fst r \<le> MAX_SMALL_BLOCK_SIZE \<and> valid_alignment (snd r)"
  shows "allocate_blocks np a reqs \<noteq> Some (Inl e)"
  using assms
proof (induction reqs arbitrary: a)
  case Nil
  show ?case by simp
next
  case (Cons req reqs)
  obtain sz al where req: "req = (sz, al)" by (cases req)
  have first: "allocate_block np a sz al \<noteq> Some (Inl e)"
    using Cons.prems req by (intro allocate_block_no_error) simp_all
  have rest: "allocate_blocks np a1 reqs \<noteq> Some (Inl e)" for a1
    using Cons.prems by (intro Cons.IH) simp
  show ?case
    using first rest unfolding req
    by (auto split: option.splits sum.splits prod.splits)
qed

lemma allocate_blocks_total:
  assumes "\<forall>r\<in>set reqs. fst r \<le> MAX_SMALL_BLOCK_SIZE \<and> valid_alignment (snd r)
             \<and> snd r \<le> 32768"
  shows "\<exists>ps a'. allocate_blocks np a reqs = Some (Inr (ps, a'))"
  using assms
proof (induction reqs arbitrary: a)
  case Nil
  show ?case by simp
next
  case (Cons req reqs)
  obtain sz al where req: "req = (sz, al)" by (cases req)
  obtain p a1 where first: "allocate_block np a sz al = Some (Inr (p, a1))"
    using Cons.prems req allocate_block_total [of sz al np a] by auto
  obtain ps a' where "allocate_blocks np a1 reqs = Some (Inr (ps, a'))"
    using Cons.prems Cons.IH [of a1] by auto
  with first show ?case unfolding req by simp
qed

lemma not_valid_alignment_3: "\<not> valid_alignment 3"
proof
  assume "valid_alignment 3"
  then obtain n where n: "(3::nat) = 2 ^ n" by (auto simp: valid_alignment_def)
  show False
  proof (cases n)
    case 0
    with n show ?thesis by simp
  next
    case (Suc k)
    with n have "(3::nat) = 2 * 2 ^ k" by simp
    then have "even (3::nat)" by (simp only: even_mult_iff) simp
    then show ?thesis by simp
  qed
qed

subsection \<open>The claims about \<^verbatim>\<open>allocate_block\<close>\<close>

text \<open>
  Claim C5, as amended. Take any sequence of calls of \<^verbatim>\<open>allocate_block\<close> on one
  allocator, starting from a new one, in which every size is at most 4096 and every
  alignment is a power of two, with pages that are not null and do not overlap. Then no
  call of the sequence ends in an error; if the sequence returns, every block returned
  is aligned as requested, lies within one page of the allocator, and overlaps no block
  returned by another call of the sequence; and if moreover no alignment exceeds 32768,
  the sequence does return.
\<close>

theorem allocated_blocks_aligned_disjoint:
  assumes "well_placed np"
    and "\<forall>r\<in>set reqs. fst r \<le> MAX_SMALL_BLOCK_SIZE \<and> valid_alignment (snd r)"
  shows "(\<forall>e. allocate_blocks np Allocator_init reqs \<noteq> Some (Inl e))
     \<and> (\<forall>ps a'. allocate_blocks np Allocator_init reqs = Some (Inr (ps, a')) \<longrightarrow>
          length ps = length reqs
          \<and> (\<forall>i<length reqs.
                ps ! i mod snd (reqs ! i) = 0
                \<and> (\<exists>b\<in>set (pages a'). b \<le> ps ! i \<and> ps ! i + fst (reqs ! i) \<le> b + PAGE_SIZE))
          \<and> (\<forall>i j. i < j \<and> j < length reqs \<longrightarrow>
                block (ps ! i) (fst (reqs ! i)) \<inter> block (ps ! j) (fst (reqs ! j)) = {}))
     \<and> ((\<forall>r\<in>set reqs. snd r \<le> 32768) \<longrightarrow>
          (\<exists>ps a'. allocate_blocks np Allocator_init reqs = Some (Inr (ps, a'))))"
proof -
  have no_error: "\<forall>e. allocate_blocks np Allocator_init reqs \<noteq> Some (Inl e)"
    using allocate_blocks_no_error [OF assms(2)] by blast
  have post: "\<forall>ps a'. allocate_blocks np Allocator_init reqs = Some (Inr (ps, a')) \<longrightarrow>
          length ps = length reqs
          \<and> (\<forall>i<length reqs.
                ps ! i mod snd (reqs ! i) = 0
                \<and> (\<exists>b\<in>set (pages a'). b \<le> ps ! i \<and> ps ! i + fst (reqs ! i) \<le> b + PAGE_SIZE))
          \<and> (\<forall>i j. i < j \<and> j < length reqs \<longrightarrow>
                block (ps ! i) (fst (reqs ! i)) \<inter> block (ps ! j) (fst (reqs ! j)) = {})"
  proof (rule allI, rule allI, rule impI)
    fix ps a'
    assume run: "allocate_blocks np Allocator_init reqs = Some (Inr (ps, a'))"
    have "blocks_ok np Allocator_init a' reqs ps"
      using allocate_blocks_ok [OF assms(1) alloc_inv_init run] by simp
    then show "length ps = length reqs
          \<and> (\<forall>i<length reqs.
                ps ! i mod snd (reqs ! i) = 0
                \<and> (\<exists>b\<in>set (pages a'). b \<le> ps ! i \<and> ps ! i + fst (reqs ! i) \<le> b + PAGE_SIZE))
          \<and> (\<forall>i j. i < j \<and> j < length reqs \<longrightarrow>
                block (ps ! i) (fst (reqs ! i)) \<inter> block (ps ! j) (fst (reqs ! j)) = {})"
      unfolding blocks_ok_def by blast
  qed
  have total: "(\<forall>r\<in>set reqs. snd r \<le> 32768) \<longrightarrow>
          (\<exists>ps a'. allocate_blocks np Allocator_init reqs = Some (Inr (ps, a')))"
  proof
    assume "\<forall>r\<in>set reqs. snd r \<le> 32768"
    with assms(2) have "\<forall>r\<in>set reqs. fst r \<le> MAX_SMALL_BLOCK_SIZE \<and> valid_alignment (snd r)
        \<and> snd r \<le> 32768" by blast
    then show "\<exists>ps a'. allocate_blocks np Allocator_init reqs = Some (Inr (ps, a'))"
      by (rule allocate_blocks_total)
  qed
  show ?thesis by (rule conjI [OF no_error conjI [OF post total]])
qed

theorem allocated_blocks_aligned_disjoint_witness:
  "allocate_blocks odd_pages Allocator_init [(24, 8), (16, 8), (4096, 1024), (4000, 8)]
     = Some (Inr ([65536, 65560, 66560, 70656],
          \<lparr>pages = [65536], active_page_first_free_byte = 74656,
            active_page_bytes_left = 56416\<rparr>))
   \<and> (65560::nat) mod 8 = 0 \<and> (66560::nat) mod 1024 = 0
   \<and> block 65536 24 \<inter> block 65560 16 = {}
   \<and> block 65560 16 \<inter> block 66560 4096 = {}
   \<and> block 66560 4096 \<inter> block 70656 4000 = {}"
proof -
  let ?reqs = "[(24, 8), (16, 8), (4096, 1024), (4000, 8)] :: (nat \<times> nat) list"
  let ?ps = "[65536, 65560, 66560, 70656] :: nat list"
  have pre: "\<forall>r\<in>set ?reqs. fst r \<le> MAX_SMALL_BLOCK_SIZE \<and> valid_alignment (snd r)"
    by (simp add: MAX_SMALL_BLOCK_SIZE_def valid_alignment_8 valid_alignment_1024)
  note ok = allocated_blocks_aligned_disjoint [OF well_placed_odd_pages pre]
  from ok example_allocate_blocks
  have al: "\<forall>i<length ?reqs. ?ps ! i mod snd (?reqs ! i) = 0" by blast
  from ok example_allocate_blocks
  have disj: "\<forall>i j. i < j \<and> j < length ?reqs \<longrightarrow>
      block (?ps ! i) (fst (?reqs ! i)) \<inter> block (?ps ! j) (fst (?reqs ! j)) = {}" by blast
  from al [rule_format, of 1] al [rule_format, of 2]
  have "?ps ! 1 mod snd (?reqs ! 1) = 0" "?ps ! 2 mod snd (?reqs ! 2) = 0"
    by simp_all
  moreover from disj [rule_format, of 0 1]
  have "block (?ps ! 0) (fst (?reqs ! 0)) \<inter> block (?ps ! 1) (fst (?reqs ! 1)) = {}"
    by simp
  moreover from disj [rule_format, of 1 2]
  have "block (?ps ! 1) (fst (?reqs ! 1)) \<inter> block (?ps ! 2) (fst (?reqs ! 2)) = {}"
    by simp
  moreover from disj [rule_format, of 2 3]
  have "block (?ps ! 2) (fst (?reqs ! 2)) \<inter> block (?ps ! 3) (fst (?reqs ! 3)) = {}"
    by simp
  ultimately show ?thesis using example_allocate_blocks by simp
qed

text \<open>
  Claim C5 as stated, for every call with a size of at most 4096, fails when the
  alignment is no power of two. \<^verbatim>\<open>allocate_block\<close> passes the alignment to
  \<^verbatim>\<open>std::align\<close> as it is, so the call with size 8 and alignment 3 on a new allocator
  has undefined behaviour: nothing guarantees a block at a multiple of 3. (The usual
  implementations of \<^verbatim>\<open>std::align\<close> mask the address with the negated alignment and
  return the start of the new page, here 65536, which is no multiple of 3.)
\<close>

theorem allocate_block_alignment_3:
  "well_placed odd_pages \<and> (8::nat) \<le> MAX_SMALL_BLOCK_SIZE \<and> \<not> valid_alignment 3
   \<and> allocate_block odd_pages Allocator_init 8 3 = Some (Inl Undefined_behaviour)
   \<and> allocate_blocks odd_pages Allocator_init [(8, 3)] = Some (Inl Undefined_behaviour)
   \<and> odd_pages 0 = 65536 \<and> (65536::nat) mod 3 \<noteq> 0"
proof -
  have "allocate_block odd_pages Allocator_init 8 3 = Some (Inl Undefined_behaviour)"
    by (subst allocate_block_def, subst allocate_block_counting.simps)
      (simp add: MAX_SMALL_BLOCK_SIZE_def not_valid_alignment_3)
  then show ?thesis
    by (simp add: well_placed_odd_pages MAX_SMALL_BLOCK_SIZE_def not_valid_alignment_3
        odd_pages_def)
qed

text \<open>
  Claim C6. A call with a size above \<open>MAX_SMALL_BLOCK_SIZE\<close>, which is 4096, prints the
  diagnostic and calls \<^verbatim>\<open>std::terminate()\<close>: the result is \<open>Terminated\<close>, whatever the
  allocator and the alignment, and no block is returned. A call with a size of at most
  4096 never ends in this way.
\<close>

theorem allocate_block_terminates_iff_too_large:
  "MAX_SMALL_BLOCK_SIZE = 4096
   \<and> (MAX_SMALL_BLOCK_SIZE < sz \<longrightarrow> allocate_block np a sz al = Some (Inl Terminated))
   \<and> (sz \<le> MAX_SMALL_BLOCK_SIZE \<longrightarrow> allocate_block np a sz al \<noteq> Some (Inl Terminated))"
proof (intro conjI impI)
  show "MAX_SMALL_BLOCK_SIZE = 4096" by (simp add: MAX_SMALL_BLOCK_SIZE_def)
  show "allocate_block np a sz al = Some (Inl Terminated)" if "MAX_SMALL_BLOCK_SIZE < sz"
    using that by (rule allocate_block_too_large)
  show "allocate_block np a sz al \<noteq> Some (Inl Terminated)" if le: "sz \<le> MAX_SMALL_BLOCK_SIZE"
  proof
    assume "allocate_block np a sz al = Some (Inl Terminated)"
    then obtain y where y: "allocate_block_counting np a sz al 0 = Some y"
      and m: "map_sum id (\<lambda>(p, a', retries). (p, a')) y = Inl Terminated"
      by (auto simp: allocate_block_def)
    from m have "y = Inl Terminated" by (cases y) auto
    with allocate_block_counting_not_terminated [OF y] le show False by simp
  qed
qed

theorem allocate_block_terminates_iff_too_large_witness:
  "allocate_block odd_pages Allocator_init 4097 8 = Some (Inl Terminated)
   \<and> allocate_block odd_pages Allocator_init 4096 8 \<noteq> Some (Inl Terminated)"
  using allocate_block_terminates_iff_too_large [of 4097 odd_pages Allocator_init 8, THEN conjunct2]
    allocate_block_terminates_iff_too_large [of 4096 odd_pages Allocator_init 8, THEN conjunct2]
  by (simp add: MAX_SMALL_BLOCK_SIZE_def)

text \<open>
  Claim C7, as amended. A call with a size of at most 4096 and an alignment that is a
  power of two of at most 32768 (half a page) returns a block, whatever the state of the
  allocator and the placement of the pages, and it retries at most once: a new page
  has room for the padding and the block.
\<close>

theorem allocate_block_returns_one_retry:
  assumes "sz \<le> MAX_SMALL_BLOCK_SIZE" "valid_alignment al" "al \<le> 32768"
  shows "\<exists>p a' retries.
           allocate_block_counting np a sz al 0 = Some (Inr (p, a', retries))
           \<and> allocate_block np a sz al = Some (Inr (p, a')) \<and> retries \<le> 1"
proof -
  obtain p a' r where "allocate_block_counting np a sz al 0 = Some (Inr (p, a', r))" "r \<le> 0 + 1"
    using allocate_block_counting_total [OF assms, of np a 0] by blast
  then show ?thesis by (auto simp: allocate_block_def)
qed

theorem allocate_block_returns_one_retry_witness:
  "\<exists>p a' retries.
     allocate_block_counting odd_pages
       \<lparr>pages = [65536], active_page_first_free_byte = 131000, active_page_bytes_left = 72\<rparr>
       1000 8 0 = Some (Inr (p, a', retries))
     \<and> allocate_block odd_pages
       \<lparr>pages = [65536], active_page_first_free_byte = 131000, active_page_bytes_left = 72\<rparr>
       1000 8 = Some (Inr (p, a'))
     \<and> retries \<le> 1"
  by (rule allocate_block_returns_one_retry)
    (simp_all add: MAX_SMALL_BLOCK_SIZE_def valid_alignment_8)

text \<open>
  Claim C7 as stated fails for a larger alignment. With the pages at the odd multiples of
  64 KiB, a call with size 1 and alignment 131072 finds no room in any page: every retry
  gives up a new page, and the call never returns.
\<close>

theorem allocate_block_never_returns:
  "well_placed odd_pages \<and> (1::nat) \<le> MAX_SMALL_BLOCK_SIZE \<and> valid_alignment 131072
   \<and> allocate_block_counting odd_pages Allocator_init 1 131072 0 = None
   \<and> allocate_block odd_pages Allocator_init 1 131072 = None"
proof -
  have none: "allocate_block_counting odd_pages Allocator_init 1 131072 0 = None"
  proof (cases "allocate_block_counting odd_pages Allocator_init 1 131072 0")
    case (Some y)
    from allocate_block_counting_diverges [OF this] show ?thesis
      by (simp add: Allocator_init_def)
  qed simp
  moreover have "valid_alignment 131072" using valid_alignment_power [of 17] by simp
  ultimately show ?thesis
    by (simp add: well_placed_odd_pages MAX_SMALL_BLOCK_SIZE_def allocate_block_def)
qed

section \<open>The fixed-capacity vector (\<^verbatim>\<open>without_raii::Vector\<close>)\<close>

text \<open>
  The program instantiates \<^verbatim>\<open>Vector<T>\<close> at \<^verbatim>\<open>T = Node*\<close> only. The layout is that of
  the 64-bit targets: a pointer has size and alignment 8. \<^verbatim>\<open>aligned_item_size<T>::value\<close>
  is the size rounded up to the alignment, stored in an \<^verbatim>\<open>int\<close>.
\<close>

definition sizeof_ptr :: nat where "sizeof_ptr = 8"
definition alignof_ptr :: nat where "alignof_ptr = 8"

definition aligned_item_size :: "nat \<Rightarrow> nat \<Rightarrow> int" where
  "aligned_item_size sizeof_T alignof_T =
     int32 (int (((sizeof_T + alignof_T - 1) div alignof_T) * alignof_T))"

text \<open>
  A vector: the address of its block, \<^verbatim>\<open>size\<close> and \<^verbatim>\<open>max_size\<close>. The elements live in
  memory, a map from the address of a pointer-sized cell to the pointer stored there.
\<close>

record Vector =
  items :: nat
  size_vec :: int
  max_size :: int

text \<open>
  The constructor asks the allocator for \<^verbatim>\<open>max_size * aligned_item_size<T>::value\<close> bytes.
  The product is computed in \<^verbatim>\<open>int\<close>, where it wraps like every \<^verbatim>\<open>int\<close> of the model,
  and is then converted to \<^verbatim>\<open>size_t\<close>, which turns a negative product into a size far
  above \<^verbatim>\<open>MAX_SMALL_BLOCK_SIZE\<close>. The member \<^verbatim>\<open>max_size\<close> keeps the argument.
\<close>

definition Vector_ctor ::
  "(nat \<Rightarrow> nat) \<Rightarrow> Allocator \<Rightarrow> int \<Rightarrow> (error + Vector \<times> Allocator) option"
where
  "Vector_ctor new_page a max_size_arg =
     (case allocate_block new_page a
             (size_t (int32 (max_size_arg * aligned_item_size sizeof_ptr alignof_ptr)))
             alignof_ptr of
        None \<Rightarrow> None
      | Some (Inl e) \<Rightarrow> Some (Inl e)
      | Some (Inr (p, a')) \<Rightarrow>
          Some (Inr (\<lparr>items = p, size_vec = 0, max_size = max_size_arg\<rparr>, a')))"

text \<open>
  \<^verbatim>\<open>&items[i]\<close>, and \<^verbatim>\<open>push_back\<close>: the assertion, then the placement-new at
  \<^verbatim>\<open>items[size++]\<close>. The assertion is modelled as compiled in (no \<^verbatim>\<open>NDEBUG\<close>).
\<close>

definition item_address :: "Vector \<Rightarrow> int \<Rightarrow> nat" where
  "item_address v i = nat (int (items v) + i * int sizeof_ptr)"

definition push_back :: "Vector \<Rightarrow> nat \<Rightarrow> (nat \<rightharpoonup> nat) \<Rightarrow> error + Vector \<times> (nat \<rightharpoonup> nat)" where
  "push_back v x mem =
     (if size_vec v < max_size v then
        Inr (v\<lparr>size_vec := int32 (size_vec v + 1)\<rparr>, mem(item_address v (size_vec v) \<mapsto> x))
      else Inl Assertion_failed)"

definition begin_vec :: "Vector \<Rightarrow> nat" where
  "begin_vec v = items v"

definition end_vec :: "Vector \<Rightarrow> nat" where
  "end_vec v = item_address v (size_vec v)"



text \<open>A sequence of calls of \<^verbatim>\<open>push_back\<close>.\<close>

fun push_back_all :: "Vector \<Rightarrow> nat list \<Rightarrow> (nat \<rightharpoonup> nat) \<Rightarrow> error + Vector \<times> (nat \<rightharpoonup> nat)" where
  "push_back_all v [] mem = Inr (v, mem)"
| "push_back_all v (x # xs) mem =
     (case push_back v x mem of
        Inl e \<Rightarrow> Inl e
      | Inr (v', mem') \<Rightarrow> push_back_all v' xs mem')"

lemma aligned_item_size_ptr: "aligned_item_size sizeof_ptr alignof_ptr = 8"
  by (simp add: aligned_item_size_def sizeof_ptr_def alignof_ptr_def int32_id)

lemma allocate_block_InrD:
  assumes "allocate_block np a sz al = Some (Inr (p, a'))"
  shows "sz \<le> MAX_SMALL_BLOCK_SIZE"
proof (rule ccontr)
  assume "\<not> sz \<le> MAX_SMALL_BLOCK_SIZE"
  then have "allocate_block np a sz al = Some (Inl Terminated)"
    by (intro allocate_block_too_large) simp
  with assms show False by simp
qed

lemma Vector_ctor_SomeD:
  assumes "Vector_ctor np a m = Some (Inr (v, a'))"
  shows "size_vec v = 0" "max_size v = m"
    and "allocate_block np a (size_t (int32 (m * 8))) alignof_ptr = Some (Inr (items v, a'))"
  using assms
  by (auto simp: Vector_ctor_def aligned_item_size_ptr split: option.splits sum.splits)

lemma Vector_ctor_no_overflow:
  assumes "Vector_ctor np a m = Some (Inr (v, a'))"
    and rng: "int32 (m * aligned_item_size sizeof_ptr alignof_ptr)
              = m * aligned_item_size sizeof_ptr alignof_ptr"
  shows "0 \<le> m" "m \<le> 512"
    and "allocate_block np a (nat m * 8) alignof_ptr = Some (Inr (items v, a'))"
proof -
  let ?sz = "size_t (m * 8)"
  from rng have rng8: "int32 (m * 8) = m * 8" by (simp add: aligned_item_size_ptr)
  have alloc: "allocate_block np a ?sz alignof_ptr = Some (Inr (items v, a'))"
    using Vector_ctor_SomeD(3) [OF assms(1)] rng8 by simp
  have le: "?sz \<le> 4096"
    using allocate_block_InrD [OF alloc] by (simp add: MAX_SMALL_BLOCK_SIZE_def)
  show m0: "0 \<le> m"
  proof (rule ccontr)
    assume neg: "\<not> 0 \<le> m"
    have "- 2147483648 \<le> m * 8"
      using rng8 signed_take_bit_int_greater_eq_minus_exp [of 31 "m * 8"]
      by (simp add: int32_def)
    then have "(m * 8 + 2 ^ 64) mod 2 ^ 64 = m * 8 + 2 ^ 64"
      using neg by (intro mod_pos_pos_trivial) simp_all
    moreover have "(m * 8 + 2 ^ 64) mod 2 ^ 64 = (m * 8) mod 2 ^ 64"
      by (rule mod_add_self2)
    ultimately have "(m * 8) mod 2 ^ 64 = m * 8 + 2 ^ 64" by simp
    then have "?sz > 4096" using neg \<open>- 2147483648 \<le> m * 8\<close>
      by (simp add: size_t_def)
    with le show False by simp
  qed
  have "m * 8 < 2147483648"
    using rng8 signed_take_bit_int_less_exp [of 31 "m * 8"] by (simp add: int32_def)
  then have sz: "?sz = nat m * 8"
    using m0 by (simp add: size_t_def nat_mult_distrib)
  with le show "m \<le> 512" using m0 by simp
  show "allocate_block np a (nat m * 8) alignof_ptr = Some (Inr (items v, a'))"
    using alloc sz by simp
qed


lemma item_address_nonneg: "0 \<le> i \<Longrightarrow> item_address v i = items v + sizeof_ptr * nat i"
  by (simp add: item_address_def nat_add_distrib nat_mult_distrib)

lemma push_back_ok:
  assumes "0 \<le> size_vec v" "size_vec v < max_size v" "max_size v < 2147483648"
  shows "push_back v x mem =
           Inr (v\<lparr>size_vec := size_vec v + 1\<rparr>,
                mem(items v + sizeof_ptr * nat (size_vec v) \<mapsto> x))"
proof -
  have "int32 (size_vec v + 1) = size_vec v + 1"
    using assms by (intro int32_id) simp_all
  then show ?thesis
    using assms by (simp add: push_back_def item_address_nonneg)
qed

lemma push_back_full:
  "max_size v \<le> size_vec v \<Longrightarrow> push_back v x mem = Inl Assertion_failed"
  by (simp add: push_back_def)

lemma push_back_all_ok:
  assumes "0 \<le> size_vec v" "size_vec v + int (length xs) \<le> max_size v"
    and "max_size v < 2147483648"
  shows "\<exists>mem'. push_back_all v xs mem
             = Inr (v\<lparr>size_vec := size_vec v + int (length xs)\<rparr>, mem')
           \<and> (\<forall>i<length xs.
                 mem' (items v + sizeof_ptr * (nat (size_vec v) + i)) = Some (xs ! i))
           \<and> (\<forall>a. (\<forall>i<length xs. a \<noteq> items v + sizeof_ptr * (nat (size_vec v) + i))
                   \<longrightarrow> mem' a = mem a)"
  using assms
proof (induction xs arbitrary: v mem)
  case Nil
  then show ?case by simp
next
  case (Cons x xs)
  let ?s = "size_vec v"
  let ?v1 = "v\<lparr>size_vec := ?s + 1\<rparr>"
  let ?w = "items v + sizeof_ptr * nat ?s"
  let ?mem1 = "mem(?w \<mapsto> x)"
  have first: "push_back v x mem = Inr (?v1, ?mem1)"
    using Cons.prems by (intro push_back_ok) simp_all
  have "\<exists>mem'. push_back_all ?v1 xs ?mem1
             = Inr (?v1\<lparr>size_vec := size_vec ?v1 + int (length xs)\<rparr>, mem')
           \<and> (\<forall>i<length xs.
                 mem' (items ?v1 + sizeof_ptr * (nat (size_vec ?v1) + i)) = Some (xs ! i))
           \<and> (\<forall>a. (\<forall>i<length xs. a \<noteq> items ?v1 + sizeof_ptr * (nat (size_vec ?v1) + i))
                   \<longrightarrow> mem' a = ?mem1 a)"
    using Cons.prems by (intro Cons.IH) simp_all
  then obtain mem' where
    run: "push_back_all ?v1 xs ?mem1 = Inr (v\<lparr>size_vec := ?s + 1 + int (length xs)\<rparr>, mem')"
    and new: "\<forall>i<length xs. mem' (items v + sizeof_ptr * (nat (?s + 1) + i)) = Some (xs ! i)"
    and old: "\<forall>a. (\<forall>i<length xs. a \<noteq> items v + sizeof_ptr * (nat (?s + 1) + i))
                   \<longrightarrow> mem' a = ?mem1 a"
    by auto
  have suc: "nat (?s + 1) = Suc (nat ?s)" using Cons.prems(1) by simp
  have pos: "0 < sizeof_ptr" by (simp add: sizeof_ptr_def)
  have res: "push_back_all v (x # xs) mem
      = Inr (v\<lparr>size_vec := ?s + int (length (x # xs))\<rparr>, mem')"
    using first run by (simp add: add.assoc add.commute)
  have cells: "mem' (items v + sizeof_ptr * (nat ?s + i)) = Some ((x # xs) ! i)"
    if "i < length (x # xs)" for i
  proof (cases i)
    case 0
    have "\<forall>j<length xs. ?w \<noteq> items v + sizeof_ptr * (nat (?s + 1) + j)"
      by (simp add: suc sizeof_ptr_def)
    with old have "mem' ?w = ?mem1 ?w" by blast
    then show ?thesis using 0 by simp
  next
    case (Suc k)
    then have "k < length xs" using that by simp
    with new have "mem' (items v + sizeof_ptr * (nat (?s + 1) + k)) = Some (xs ! k)" by blast
    then show ?thesis using Suc by (simp add: suc)
  qed
  have frame: "mem' a = mem a"
    if "\<forall>i<length (x # xs). a \<noteq> items v + sizeof_ptr * (nat ?s + i)" for a
  proof -
    from that have "a \<noteq> items v + sizeof_ptr * (nat ?s + 0)" by blast
    then have ne: "a \<noteq> ?w" by simp
    have "a \<noteq> items v + sizeof_ptr * (nat (?s + 1) + j)" if "j < length xs" for j
    proof -
      from that \<open>\<forall>i<length (x # xs). a \<noteq> items v + sizeof_ptr * (nat ?s + i)\<close>
      have "a \<noteq> items v + sizeof_ptr * (nat ?s + Suc j)" by auto
      then show ?thesis by (simp add: suc)
    qed
    with old have "mem' a = ?mem1 a" by blast
    with ne show ?thesis by simp
  qed
  show ?case using res cells frame by blast
qed

lemma push_back_all_InrD:
  assumes "push_back_all v xs mem = Inr (v', mem')"
    and "0 \<le> size_vec v" "size_vec v \<le> max_size v" "max_size v < 2147483648"
  shows "size_vec v + int (length xs) \<le> max_size v"
  using assms
proof (induction xs arbitrary: v mem)
  case Nil
  then show ?case by simp
next
  case (Cons x xs)
  from Cons.prems(1) have lt: "size_vec v < max_size v"
    by (auto simp: push_back_def split: if_splits)
  let ?v1 = "v\<lparr>size_vec := size_vec v + 1\<rparr>"
  have first: "push_back v x mem
      = Inr (?v1, mem(items v + sizeof_ptr * nat (size_vec v) \<mapsto> x))"
    using Cons.prems lt by (intro push_back_ok) simp_all
  with Cons.prems(1) have "push_back_all ?v1 xs (mem(items v + sizeof_ptr * nat (size_vec v) \<mapsto> x))
      = Inr (v', mem')" by simp
  from Cons.IH [OF this] Cons.prems lt show ?case by simp
qed


text \<open>
  Claim C9, as amended. Take a vector that its constructor has returned, with a
  \<open>max_size\<close> for which the product \<^verbatim>\<open>max_size * aligned_item_size<T>::value\<close> of the
  constructor does not overflow the \<^verbatim>\<open>int\<close>, after any sequence of pushes. If it holds
  \<open>max_size\<close> elements, a further push fails the assertion and writes nothing (the
  assertion is compiled in: \<^verbatim>\<open>NDEBUG\<close> is not defined). Otherwise the push writes one
  cell, and the cell lies inside the block that \<^verbatim>\<open>allocate_block\<close> returned to the
  constructor.
\<close>

theorem push_back_within_block:
  assumes "Vector_ctor np a m = Some (Inr (v0, a'))"
    and "push_back_all v0 xs mem = Inr (v, mem1)"
    and "int32 (m * aligned_item_size sizeof_ptr alignof_ptr)
         = m * aligned_item_size sizeof_ptr alignof_ptr"
  shows "allocate_block np a (nat m * sizeof_ptr) alignof_ptr = Some (Inr (items v0, a'))
     \<and> items v = items v0 \<and> max_size v = m
     \<and> (size_vec v = max_size v \<longrightarrow> push_back v x mem1 = Inl Assertion_failed)
     \<and> (size_vec v \<noteq> max_size v \<longrightarrow>
          (\<exists>w. push_back v x mem1 = Inr (v\<lparr>size_vec := size_vec v + 1\<rparr>, mem1(w \<mapsto> x))
                \<and> block w sizeof_ptr \<subseteq> block (items v0) (nat m * sizeof_ptr)))"
proof -
  note c = Vector_ctor_SomeD(1,2) [OF assms(1)] Vector_ctor_no_overflow [OF assms(1,3)]
  have len: "size_vec v0 + int (length xs) \<le> max_size v0"
    using push_back_all_InrD [OF assms(2)] c by simp
  obtain mem' where "push_back_all v0 xs mem
      = Inr (v0\<lparr>size_vec := size_vec v0 + int (length xs)\<rparr>, mem')"
    using push_back_all_ok [of v0 xs mem] c len by auto
  with assms(2) have v: "v = v0\<lparr>size_vec := int (length xs)\<rparr>" using c by simp
  have le: "int (length xs) \<le> m" using len c by simp
  have full: "push_back v x mem1 = Inl Assertion_failed" if "size_vec v = max_size v"
    using that by (intro push_back_full) simp
  have room: "\<exists>w. push_back v x mem1 = Inr (v\<lparr>size_vec := size_vec v + 1\<rparr>, mem1(w \<mapsto> x))
                \<and> block w sizeof_ptr \<subseteq> block (items v0) (nat m * sizeof_ptr)"
    if "size_vec v \<noteq> max_size v"
  proof -
    from that v le c have lt: "int (length xs) < m" by simp
    have "push_back v x mem1 = Inr (v\<lparr>size_vec := size_vec v + 1\<rparr>,
        mem1(items v + sizeof_ptr * nat (size_vec v) \<mapsto> x))"
      using v lt c by (intro push_back_ok) simp_all
    moreover have "block (items v + sizeof_ptr * nat (size_vec v)) sizeof_ptr
        \<subseteq> block (items v0) (nat m * sizeof_ptr)"
    proof -
      have "Suc (length xs) \<le> nat m" using lt by simp
      then have "sizeof_ptr * Suc (length xs) \<le> nat m * sizeof_ptr"
        by (simp only: mult.commute [of sizeof_ptr] mult_le_mono1)
      then show ?thesis using v by (auto simp: block_def)
    qed
    ultimately show ?thesis by blast
  qed
  show ?thesis using c(5) v c(2) full room by (simp add: sizeof_ptr_def)
qed

lemma example_Vector_ctor:
  "Vector_ctor odd_pages Allocator_init 3
   = Some (Inr (\<lparr>items = 65536, size_vec = 0, max_size = 3\<rparr>,
        \<lparr>pages = [65536], active_page_first_free_byte = 65560, active_page_bytes_left = 65512\<rparr>))"
  by (simp add: Vector_ctor_def aligned_item_size_def sizeof_ptr_def alignof_ptr_def
      int32_id size_t_def allocate_eval)

lemma example_push_back_all:
  "push_back_all \<lparr>items = 65536, size_vec = 0, max_size = 3\<rparr> [7, 8, 9] Map.empty
   = Inr (\<lparr>items = 65536, size_vec = 3, max_size = 3\<rparr>,
          [65536 \<mapsto> 7, 65544 \<mapsto> 8, 65552 \<mapsto> 9])"
  by (simp add: push_back_def item_address_def sizeof_ptr_def int32_id)

lemma example_push_back_two:
  "push_back_all \<lparr>items = 65536, size_vec = 0, max_size = 3\<rparr> [7, 8] Map.empty
   = Inr (\<lparr>items = 65536, size_vec = 2, max_size = 3\<rparr>, [65536 \<mapsto> 7, 65544 \<mapsto> 8])"
  by (simp add: push_back_def item_address_def sizeof_ptr_def int32_id)

lemma int32_wraps_to_0: "int32 4294967296 = 0"
  by (simp add: int32_def signed_take_bit_eq_take_bit_shift take_bit_eq_mod)


theorem push_back_within_block_witness:
  "push_back \<lparr>items = 65536, size_vec = 3, max_size = 3\<rparr> 10
       [65536 \<mapsto> 7, 65544 \<mapsto> 8, 65552 \<mapsto> 9]
     = Inl Assertion_failed
   \<and> (\<exists>w. push_back \<lparr>items = 65536, size_vec = 2, max_size = 3\<rparr> 9 [65536 \<mapsto> 7, 65544 \<mapsto> 8]
            = Inr (\<lparr>items = 65536, size_vec = 3, max_size = 3\<rparr>,
                   [65536 \<mapsto> 7, 65544 \<mapsto> 8, w \<mapsto> 9])
          \<and> block w sizeof_ptr \<subseteq> block 65536 (3 * sizeof_ptr))"
  using push_back_within_block [OF example_Vector_ctor example_push_back_all, of 10]
    push_back_within_block [OF example_Vector_ctor example_push_back_two, of 9]
  by (simp add: aligned_item_size_ptr int32_id)

text \<open>
  Claim C9 as stated, for every vector, fails where the product of the constructor
  overflows. With \<open>max_size = 536870912\<close> the product \<open>536870912 * 8 = 2^32\<close> wraps to 0:
  the constructor gets a block of 0 bytes at 65536 and returns a vector of capacity
  536870912. Its first push passes the assertion and writes the cell at 65536, outside
  the block.
\<close>

theorem push_back_outside_block:
  "size_t (int32 (536870912 * aligned_item_size sizeof_ptr alignof_ptr)) = 0
   \<and> Vector_ctor odd_pages Allocator_init 536870912
     = Some (Inr (\<lparr>items = 65536, size_vec = 0, max_size = 536870912\<rparr>,
          \<lparr>pages = [65536], active_page_first_free_byte = 65536,
            active_page_bytes_left = 65536\<rparr>))
   \<and> push_back \<lparr>items = 65536, size_vec = 0, max_size = 536870912\<rparr> 7 Map.empty
     = Inr (\<lparr>items = 65536, size_vec = 1, max_size = 536870912\<rparr>, [65536 \<mapsto> 7])
   \<and> block 65536 0 = {} \<and> \<not> block 65536 sizeof_ptr \<subseteq> block 65536 0"
proof -
  have sz: "size_t (int32 (536870912 * aligned_item_size sizeof_ptr alignof_ptr)) = 0"
    by (simp add: aligned_item_size_ptr int32_wraps_to_0 size_t_def)
  have ctor: "Vector_ctor odd_pages Allocator_init 536870912
     = Some (Inr (\<lparr>items = 65536, size_vec = 0, max_size = 536870912\<rparr>,
          \<lparr>pages = [65536], active_page_first_free_byte = 65536,
            active_page_bytes_left = 65536\<rparr>))"
    unfolding Vector_ctor_def sz by (simp add: alignof_ptr_def allocate_eval)
  have push: "push_back \<lparr>items = 65536, size_vec = 0, max_size = 536870912\<rparr> 7 Map.empty
     = Inr (\<lparr>items = 65536, size_vec = 1, max_size = 536870912\<rparr>, [65536 \<mapsto> 7])"
    by (simp add: push_back_def item_address_def sizeof_ptr_def int32_id)
  have "block 65536 0 = {}" "\<not> block 65536 sizeof_ptr \<subseteq> block 65536 0"
    by (auto simp: block_def sizeof_ptr_def)
  with sz ctor push show ?thesis by simp
qed

section \<open>The region-allocated tree (\<^verbatim>\<open>without_raii::Node\<close>)\<close>

text \<open>
  \<^verbatim>\<open>without_raii::Node\<close> holds a \<^verbatim>\<open>Vector<Node*>\<close> (a pointer and two \<^verbatim>\<open>int\<close>s, 16 bytes)
  and the \<^verbatim>\<open>int\<close> identifier; on the 64-bit layout assumed for the vector its size is 24
  and its alignment 8.
\<close>

definition sizeof_Node :: nat where "sizeof_Node = 24"
definition alignof_Node :: nat where "alignof_Node = 8"

text \<open>
  The members of \<^verbatim>\<open>without_raii::Node\<close>, in the order of their declaration.
\<close>

record Node =
  children :: Vector
  node_id :: int

text \<open>
  The memory the region strategy works on: the allocator, the \<^verbatim>\<open>Node\<close> objects by
  address, the pointer cells of the vectors by address, and the counter
  \<^verbatim>\<open>g_stat.n_nodes_created\<close>. Objects and cells are kept in two maps because the program
  never reads a byte at another type than it was written.
\<close>

record state =
  allocator :: Allocator
  nodes :: "nat \<rightharpoonup> Node"
  cells :: "nat \<rightharpoonup> nat"
  n_nodes_created :: int

text \<open>
  The constructor of \<^verbatim>\<open>without_raii::Node\<close> at address \<open>this\<close>: the members are
  initialised in declaration order, so the vector is allocated first, then the identifier
  is taken from the counter, which is incremented.
\<close>

definition Node_ctor :: "(nat \<Rightarrow> nat) \<Rightarrow> nat \<Rightarrow> int \<Rightarrow> state \<Rightarrow> (error + state) option" where
  "Node_ctor new_page this max_n_children s =
     (case Vector_ctor new_page (allocator s) max_n_children of
        None \<Rightarrow> None
      | Some (Inl e) \<Rightarrow> Some (Inl e)
      | Some (Inr (v, a')) \<Rightarrow>
          Some (Inr (s\<lparr>allocator := a',
                       nodes := (nodes s)(this \<mapsto> \<lparr>children = v, node_id = n_nodes_created s\<rparr>),
                       n_nodes_created := int32 (n_nodes_created s + 1)\<rparr>)))"

text \<open>
  \<^verbatim>\<open>new_object<Node>\<close>: a block of \<^verbatim>\<open>sizeof(Node)\<close> bytes aligned to \<^verbatim>\<open>alignof(Node)\<close>,
  then the constructor runs in it.
\<close>

definition new_object_Node :: "(nat \<Rightarrow> nat) \<Rightarrow> int \<Rightarrow> state \<Rightarrow> (error + nat \<times> state) option" where
  "new_object_Node new_page max_n_children s =
     (case allocate_block new_page (allocator s) sizeof_Node alignof_Node of
        None \<Rightarrow> None
      | Some (Inl e) \<Rightarrow> Some (Inl e)
      | Some (Inr (p, a')) \<Rightarrow>
          (case Node_ctor new_page p max_n_children (s\<lparr>allocator := a'\<rparr>) of
             None \<Rightarrow> None
           | Some (Inl e) \<Rightarrow> Some (Inl e)
           | Some (Inr s') \<Rightarrow> Some (Inr (p, s'))))"

text \<open>
  \<^verbatim>\<open>without_raii::Node::add_child\<close>: the new node is allocated and constructed, then its
  address is pushed on the vector of \<open>this\<close>.
\<close>

definition add_child :: "(nat \<Rightarrow> nat) \<Rightarrow> nat \<Rightarrow> int \<Rightarrow> state \<Rightarrow> (error + state) option" where
  "add_child new_page this max_n_children s =
     (case new_object_Node new_page max_n_children s of
        None \<Rightarrow> None
      | Some (Inl e) \<Rightarrow> Some (Inl e)
      | Some (Inr (new_node, s1)) \<Rightarrow>
          (case nodes s1 this of
             None \<Rightarrow> Some (Inl Undefined_behaviour)
           | Some nd \<Rightarrow>
               (case push_back (children nd) new_node (cells s1) of
                  Inl e \<Rightarrow> Some (Inl e)
                | Inr (v', cells') \<Rightarrow>
                    Some (Inr (s1\<lparr>nodes := (nodes s1)(this \<mapsto> nd\<lparr>children := v'\<rparr>),
                                  cells := cells'\<rparr>)))))"

text \<open>
  The first loop of \<^verbatim>\<open>build_subtree\<close>:
  \<^verbatim>\<open>for (int i = 0; i < N_CHILDREN; ++i) node.add_child(allocator, N_CHILDREN);\<close>
\<close>

function region_add_children ::
  "(nat \<Rightarrow> nat) \<Rightarrow> int \<Rightarrow> int \<Rightarrow> nat \<Rightarrow> state \<Rightarrow> (error + state) option"
where
  "region_add_children new_page N i node s =
     (if i < N then
        (case add_child new_page node N s of
           None \<Rightarrow> None
         | Some (Inl e) \<Rightarrow> Some (Inl e)
         | Some (Inr s') \<Rightarrow> region_add_children new_page N (i + 1) node s')
      else Some (Inr s))"
  by pat_completeness auto
termination
  by (relation "measure (\<lambda>(new_page, N, i, node, s). nat (N - i))") auto

declare region_add_children.simps [simp del]

text \<open>
  \<^verbatim>\<open>build_subtree\<close> at \<^verbatim>\<open>Node = without_raii::Node\<close>. After the children are added,
  \<^verbatim>\<open>levels_left\<close> is decremented and the function returns if the result is not positive.
  Otherwise the range-for runs from \<^verbatim>\<open>begin()\<close> to \<^verbatim>\<open>end()\<close> of the children, both
  taken once before the loop; every step reads the pointer cell under the iterator and
  builds the subtree of the node it points to. An iterator that steps over \<^verbatim>\<open>end()\<close>
  without meeting it, and a cell that holds no pointer, are undefined behaviour.
\<close>

function region_build_subtree ::
    "(nat \<Rightarrow> nat) \<Rightarrow> int \<Rightarrow> nat \<Rightarrow> int \<Rightarrow> state \<Rightarrow> (error + state) option"
  and region_build_each ::
    "(nat \<Rightarrow> nat) \<Rightarrow> int \<Rightarrow> nat \<Rightarrow> nat \<Rightarrow> int \<Rightarrow> state \<Rightarrow> (error + state) option"
where
  "region_build_subtree new_page N node levels_left s =
     (case region_add_children new_page N 0 node s of
        None \<Rightarrow> None
      | Some (Inl e) \<Rightarrow> Some (Inl e)
      | Some (Inr s1) \<Rightarrow>
          if int32 (levels_left - 1) \<le> 0 then Some (Inr s1)
          else
            (case nodes s1 node of
               None \<Rightarrow> Some (Inl Undefined_behaviour)
             | Some nd \<Rightarrow>
                 region_build_each new_page N (begin_vec (children nd)) (end_vec (children nd))
                   (int32 (levels_left - 1)) s1))"
| "region_build_each new_page N it e levels_left s =
     (if it = e then Some (Inr s)
      else if e < it + sizeof_ptr then Some (Inl Undefined_behaviour)
      else
        (case cells s it of
           None \<Rightarrow> Some (Inl Undefined_behaviour)
         | Some c \<Rightarrow>
             (case region_build_subtree new_page N c levels_left s of
                None \<Rightarrow> None
              | Some (Inl err) \<Rightarrow> Some (Inl err)
              | Some (Inr s1) \<Rightarrow>
                  region_build_each new_page N (it + sizeof_ptr) e levels_left s1)))"
  by pat_completeness auto
termination
proof (relation "inv_image (less_than <*lex*> less_than)
    (\<lambda>x. case x of
       Inl (new_page, N, node, l, s) \<Rightarrow> (2 * nat (int32 (l - 1)) + 1, 0)
     | Inr (new_page, N, it, e, l, s) \<Rightarrow> (2 * nat (int32 (l - 1)) + 2, e - it))", goal_cases)
  case 1
  show ?case by (intro wf_inv_image wf_lex_prod wf_less_than)
next
  case (2 new_page N node levels_left s x2 x y)
  have "- (2 ^ 31) \<le> int32 (levels_left - 1) - 1"
    using 2 by simp
  moreover have "int32 (levels_left - 1) < 2 ^ 31"
    unfolding int32_def using signed_take_bit_int_less_exp [of 31 "levels_left - 1"] by simp
  ultimately have "int32 (int32 (levels_left - 1) - 1) = int32 (levels_left - 1) - 1"
    unfolding int32_def by (intro signed_take_bit_int_eq_self) simp_all
  with 2 show ?case by simp
next
  case 3
  then show ?case by simp
next
  case 4
  then show ?case by (simp add: sizeof_ptr_def)
qed

declare region_build_subtree.simps [simp del] region_build_each.simps [simp del]

text \<open>
  \<^verbatim>\<open>build_tree\<close>: the root is a local variable, so it is constructed at an address
  \<open>root\<close> outside the region; it is returned by value, which keeps its members.
\<close>

definition region_build_tree ::
  "(nat \<Rightarrow> nat) \<Rightarrow> nat \<Rightarrow> int \<Rightarrow> int \<Rightarrow> state \<Rightarrow> (error + state) option"
where
  "region_build_tree new_page root N D s =
     (case Node_ctor new_page root N s of
        None \<Rightarrow> None
      | Some (Inl e) \<Rightarrow> Some (Inl e)
      | Some (Inr s1) \<Rightarrow> region_build_subtree new_page N root D s1)"

text \<open>
  \<^verbatim>\<open>traverse\<close> at \<^verbatim>\<open>Node = without_raii::Node\<close>. The recursion follows pointers read
  from memory, which in an arbitrary state may form a cycle, so the function takes fuel:
  \<open>None\<close> means that the fuel did not suffice. The theorems below show that on a state
  produced by \<^verbatim>\<open>build_tree\<close> enough fuel always gives a result.
\<close>

function traverse_region :: "nat \<Rightarrow> state \<Rightarrow> nat \<Rightarrow> (error + int) option"
  and traverse_each :: "nat \<Rightarrow> state \<Rightarrow> nat \<Rightarrow> nat \<Rightarrow> int \<Rightarrow> (error + int) option"
where
  "traverse_region 0 s node = None"
| "traverse_region (Suc fuel) s node =
     (case nodes s node of
        None \<Rightarrow> Some (Inl Undefined_behaviour)
      | Some nd \<Rightarrow>
          traverse_each fuel s (begin_vec (children nd)) (end_vec (children nd)) (node_id nd))"
| "traverse_each fuel s it e checksum =
     (if it = e then Some (Inr checksum)
      else if e < it + sizeof_ptr then Some (Inl Undefined_behaviour)
      else
        (case cells s it of
           None \<Rightarrow> Some (Inl Undefined_behaviour)
         | Some c \<Rightarrow>
             (case traverse_region fuel s c of
                None \<Rightarrow> None
              | Some (Inl err) \<Rightarrow> Some (Inl err)
              | Some (Inr t) \<Rightarrow>
                  traverse_each fuel s (it + sizeof_ptr) e
                    (int32 (checksum + t) smod 43112609))))"
  by pat_completeness auto
termination
  by (relation "inv_image (less_than <*lex*> less_than)
    (\<lambda>x. case x of
       Inl (fuel, s, node) \<Rightarrow> (2 * fuel, 0)
     | Inr (fuel, s, it, e, checksum) \<Rightarrow> (2 * fuel + 1, e - it))")
    (auto simp: sizeof_ptr_def)

declare traverse_each.simps [simp del]

text \<open>
  One test: \<^verbatim>\<open>g_stat\<close> is reset, the allocator is new, the tree is built and traversed;
  the report holds the checksum and the number of nodes created.
\<close>

definition state_init :: state where
  "state_init = \<lparr>allocator = Allocator_init, nodes = Map.empty, cells = Map.empty,
                 n_nodes_created = 0\<rparr>"

definition test_region ::
  "(nat \<Rightarrow> nat) \<Rightarrow> nat \<Rightarrow> nat \<Rightarrow> int \<Rightarrow> int \<Rightarrow> (error + int \<times> int) option"
where
  "test_region new_page root fuel N D =
     (case region_build_tree new_page root N D state_init of
        None \<Rightarrow> None
      | Some (Inl e) \<Rightarrow> Some (Inl e)
      | Some (Inr s) \<Rightarrow>
          (case traverse_region fuel s root of
             None \<Rightarrow> None
           | Some (Inl e) \<Rightarrow> Some (Inl e)
           | Some (Inr checksum) \<Rightarrow> Some (Inr (checksum, n_nodes_created s))))"

definition test_raii :: "int \<Rightarrow> int \<Rightarrow> error + int \<times> int" where
  "test_raii N D =
     (case raii_build_tree N D 0 of
        Inl e \<Rightarrow> Inl e
      | Inr (r, n) \<Rightarrow> Inr (traverse_raii r, n))"

lemma traverse_region_unfold:
  "0 < fuel \<Longrightarrow> traverse_region fuel s node =
     (case nodes s node of
        None \<Rightarrow> Some (Inl Undefined_behaviour)
      | Some nd \<Rightarrow>
          traverse_each (fuel - 1) s (begin_vec (children nd)) (end_vec (children nd)) (node_id nd))"
  by (cases fuel) (simp_all split: option.split)

lemmas region_eval =
  test_region_def region_build_tree_def Node_ctor_def Vector_ctor_def new_object_Node_def
  add_child_def region_add_children.simps region_build_subtree.simps region_build_each.simps
  traverse_region_unfold traverse_each.simps state_init_def push_back_def item_address_def
  begin_vec_def end_vec_def
  aligned_item_size_def sizeof_ptr_def alignof_ptr_def sizeof_Node_def alignof_Node_def
  int32_id size_t_def smod_mod_positive allocate_eval

lemma example_region_1_1: "test_region odd_pages 1000 5 1 1 = Some (Inr (1, 2))"
  by (simp add: region_eval)

lemma example_region_2_2: "test_region odd_pages 1000 5 2 2 = Some (Inr (21, 7))"
  by (simp add: region_eval)

subsection \<open>The region tree represents the ownership-based tree\<close>

text \<open>
  The bytes of the region that no block returned so far occupies.
\<close>

definition state_free :: "(nat \<Rightarrow> nat) \<Rightarrow> state \<Rightarrow> nat set" where
  "state_free np s = free_bytes np (allocator s)"

text \<open>
  A node as its constructor leaves it: no children, room for \<open>N\<close>.
\<close>

definition leaf :: "nat \<Rightarrow> int \<Rightarrow> int \<Rightarrow> Node" where
  "leaf it N i = \<lparr>children = \<lparr>items = it, size_vec = 0, max_size = N\<rparr>, node_id = i\<rparr>"

lemma small_N:
  assumes "0 \<le> N" "N \<le> 512"
  shows "int32 (N * aligned_item_size sizeof_ptr alignof_ptr)
           = N * aligned_item_size sizeof_ptr alignof_ptr"
    and "size_t (N * aligned_item_size sizeof_ptr alignof_ptr) = nat N * sizeof_ptr"
    and "nat N * sizeof_ptr \<le> MAX_SMALL_BLOCK_SIZE"
proof -
  show "int32 (N * aligned_item_size sizeof_ptr alignof_ptr)
           = N * aligned_item_size sizeof_ptr alignof_ptr"
    using assms by (simp add: aligned_item_size_ptr int32_id)
  have "(N * 8) mod 2 ^ 64 = N * 8"
    using assms by (intro mod_pos_pos_trivial) simp_all
  then have "nat ((N * 8) mod 2 ^ 64) = nat N * 8"
    using assms by (simp add: nat_mult_distrib)
  then show "size_t (N * aligned_item_size sizeof_ptr alignof_ptr) = nat N * sizeof_ptr"
    unfolding size_t_def aligned_item_size_ptr by (simp add: sizeof_ptr_def)
  show "nat N * sizeof_ptr \<le> MAX_SMALL_BLOCK_SIZE"
    using assms by (simp add: sizeof_ptr_def MAX_SMALL_BLOCK_SIZE_def)
qed

lemma allocate_block_8:
  assumes wp: "well_placed np" and inv: "alloc_inv np a" and sz: "sz \<le> MAX_SMALL_BLOCK_SIZE"
  shows "\<exists>p a'. allocate_block np a sz 8 = Some (Inr (p, a')) \<and> alloc_post np a sz 8 p a'"
proof -
  obtain p a' where r: "allocate_block np a sz 8 = Some (Inr (p, a'))"
    using allocate_block_total [OF sz valid_alignment_8, of np a] by auto
  with allocate_block_post [OF wp inv r] show ?thesis by blast
qed

lemma Vector_ctor_ok:
  assumes wp: "well_placed np" and inv: "alloc_inv np a" and N: "0 \<le> N" "N \<le> 512"
  shows "\<exists>it a'. Vector_ctor np a N = Some (Inr (\<lparr>items = it, size_vec = 0, max_size = N\<rparr>, a'))
           \<and> alloc_post np a (nat N * sizeof_ptr) 8 it a'"
proof -
  obtain it a' where r: "allocate_block np a (nat N * sizeof_ptr) 8 = Some (Inr (it, a'))"
    and post: "alloc_post np a (nat N * sizeof_ptr) 8 it a'"
    using allocate_block_8 [OF wp inv small_N(3) [OF N]] by blast
  have "Vector_ctor np a N = Some (Inr (\<lparr>items = it, size_vec = 0, max_size = N\<rparr>, a'))"
    unfolding Vector_ctor_def small_N(1,2) [OF N] by (simp add: alignof_ptr_def r)
  with post show ?thesis by blast
qed

lemma Node_ctor_ok:
  assumes wp: "well_placed np" and inv: "alloc_inv np (allocator s)" and N: "0 \<le> N" "N \<le> 512"
  shows "\<exists>it a'. Node_ctor np p N s
             = Some (Inr (s\<lparr>allocator := a',
                            nodes := (nodes s)(p \<mapsto> leaf it N (n_nodes_created s)),
                            n_nodes_created := int32 (n_nodes_created s + 1)\<rparr>))
           \<and> alloc_post np (allocator s) (nat N * sizeof_ptr) 8 it a'"
proof -
  obtain it a' where
    v: "Vector_ctor np (allocator s) N = Some (Inr (\<lparr>items = it, size_vec = 0, max_size = N\<rparr>, a'))"
    and post: "alloc_post np (allocator s) (nat N * sizeof_ptr) 8 it a'"
    using Vector_ctor_ok [OF wp inv N] by blast
  show ?thesis
    using post by (intro exI [of _ it] exI [of _ a']) (simp add: Node_ctor_def v leaf_def)
qed

text \<open>What one call of \<open>add_child\<close> does to the state.\<close>

definition child_added ::
  "(nat \<Rightarrow> nat) \<Rightarrow> int \<Rightarrow> nat \<Rightarrow> state \<Rightarrow> nat \<Rightarrow> nat \<Rightarrow> state \<Rightarrow> bool"
where
  "child_added np N q s p it s' =
     (case nodes s q of
        None \<Rightarrow> False
      | Some nd \<Rightarrow>
          nodes s' = (nodes s)
            (p \<mapsto> leaf it N (n_nodes_created s),
             q \<mapsto> nd\<lparr>children := (children nd)\<lparr>size_vec := size_vec (children nd) + 1\<rparr>\<rparr>)
          \<and> cells s' = (cells s)
               (items (children nd) + sizeof_ptr * nat (size_vec (children nd)) \<mapsto> p)
          \<and> n_nodes_created s' = int32 (n_nodes_created s + 1)
          \<and> alloc_inv np (allocator s')
          \<and> state_free np s' \<subseteq> state_free np s
          \<and> p \<in> state_free np s \<and> p \<notin> state_free np s'
          \<and> block it (nat N * sizeof_ptr) \<subseteq> state_free np s
          \<and> block it (nat N * sizeof_ptr) \<inter> state_free np s' = {})"

lemma add_child_ok:
  assumes wp: "well_placed np" and inv: "alloc_inv np (allocator s)" and N: "0 \<le> N" "N \<le> 512"
    and q: "nodes s q = Some nd" "q \<notin> state_free np s"
    and sz: "0 \<le> size_vec (children nd)" "size_vec (children nd) < max_size (children nd)"
      "max_size (children nd) < 2147483648"
  shows "\<exists>p it s'. add_child np q N s = Some (Inr s') \<and> child_added np N q s p it s'"
proof -
  let ?a = "allocator s"
  obtain p a1 where r1: "allocate_block np ?a sizeof_Node alignof_Node = Some (Inr (p, a1))"
    and post1: "alloc_post np ?a sizeof_Node 8 p a1"
    using allocate_block_8 [OF wp inv, of sizeof_Node]
    by (auto simp: sizeof_Node_def alignof_Node_def MAX_SMALL_BLOCK_SIZE_def)
  let ?s0 = "s\<lparr>allocator := a1\<rparr>"
  have inv1: "alloc_inv np (allocator ?s0)" using post1 by (simp add: alloc_post_def)
  obtain it a2 where
    r2: "Node_ctor np p N ?s0
          = Some (Inr (?s0\<lparr>allocator := a2,
                            nodes := (nodes ?s0)(p \<mapsto> leaf it N (n_nodes_created ?s0)),
                            n_nodes_created := int32 (n_nodes_created ?s0 + 1)\<rparr>))"
    and post2: "alloc_post np (allocator ?s0) (nat N * sizeof_ptr) 8 it a2"
    using Node_ctor_ok [OF wp inv1 N, of p] by blast
  let ?s1 = "?s0\<lparr>allocator := a2,
                   nodes := (nodes ?s0)(p \<mapsto> leaf it N (n_nodes_created ?s0)),
                   n_nodes_created := int32 (n_nodes_created ?s0 + 1)\<rparr>"
  have new: "new_object_Node np N s = Some (Inr (p, ?s1))"
    by (simp add: new_object_Node_def r1 r2)
  have p_free: "p \<in> state_free np s"
    using post1 by (auto simp: alloc_post_def state_free_def block_def sizeof_Node_def)
  then have pq: "p \<noteq> q" using q(2) by auto
  then have q1: "nodes ?s1 q = Some nd" using q(1) by simp
  let ?v = "children nd"
  let ?w = "items ?v + sizeof_ptr * nat (size_vec ?v)"
  have push: "push_back ?v p (cells s)
      = Inr (?v\<lparr>size_vec := size_vec ?v + 1\<rparr>, (cells s)(?w \<mapsto> p))"
    using sz by (rule push_back_ok)
  let ?s' = "?s1\<lparr>nodes := (nodes ?s1)(q \<mapsto> nd\<lparr>children := ?v\<lparr>size_vec := size_vec ?v + 1\<rparr>\<rparr>),
                   cells := (cells ?s1)(?w \<mapsto> p)\<rparr>"
  have res: "add_child np q N s = Some (Inr ?s')"
    by (simp add: add_child_def new q(1) pq [symmetric] push)
  have free1: "free_bytes np a1 \<subseteq> free_bytes np ?a - block p sizeof_Node"
    and free2: "free_bytes np a2 \<subseteq> free_bytes np a1 - block it (nat N * sizeof_ptr)"
    and blk2: "block it (nat N * sizeof_ptr) \<subseteq> free_bytes np a1"
    and inv2: "alloc_inv np a2"
    using post1 post2 by (simp_all add: alloc_post_def)
  have pblk: "p \<in> block p sizeof_Node" by (simp add: block_def sizeof_Node_def)
  have "child_added np N q s p it ?s'"
    unfolding child_added_def using q(1) inv2 free1 free2 blk2 p_free pblk
    by (auto simp: state_free_def)
  with res show ?thesis by blast
qed

text \<open>
  The relation between the two representations: \<open>tree_in U s q t\<close> holds if the node
  at address \<open>q\<close> of state \<open>s\<close> has the identifier of \<open>t\<close> and as many children,
  the pointer cells of its vector hold the addresses of nodes that represent the children
  of \<open>t\<close> in the same order, and all nodes and cells of this representation lie in the
  set of addresses \<open>U\<close>.
\<close>

inductive tree_in :: "nat set \<Rightarrow> state \<Rightarrow> nat \<Rightarrow> raii_node \<Rightarrow> bool" for U s where
  tree_inI: "\<lbrakk>q \<in> U; nodes s q = Some nd; node_id nd = i;
     size_vec (children nd) = int (length ts); length cs = length ts;
     \<forall>k<length ts. items (children nd) + sizeof_ptr * k \<in> U
                    \<and> cells s (items (children nd) + sizeof_ptr * k) = Some (cs ! k);
     list_all2 (tree_in U s) cs ts\<rbrakk>
    \<Longrightarrow> tree_in U s q (Raii_Node ts i)"

lemma tree_in_mono:
  assumes "tree_in U s q t" "U \<subseteq> V"
  shows "tree_in V s q t"
  using assms
proof (induction rule: tree_in.induct)
  case (tree_inI q nd i ts cs)
  have "list_all2 (tree_in V s) cs ts"
    using tree_inI.IH tree_inI.prems by (auto elim!: list_all2_mono)
  with tree_inI show ?case by (intro tree_in.intros [of q V s nd i ts cs]) auto
qed

lemma tree_in_frame:
  assumes "tree_in U s q t"
    and "\<forall>x\<in>U. nodes s' x = nodes s x \<and> cells s' x = cells s x"
  shows "tree_in U s' q t"
  using assms
proof (induction rule: tree_in.induct)
  case (tree_inI q nd i ts cs)
  have "list_all2 (tree_in U s') cs ts"
    using tree_inI.IH tree_inI.prems by (auto elim!: list_all2_mono)
  with tree_inI show ?case by (intro tree_in.intros [of q U s' nd i ts cs]) auto
qed

lemma traverse_each_children:
  assumes "length cs = length ts"
    and "\<forall>k<length ts. cells s (w + sizeof_ptr * k) = Some (cs ! k)"
    and "\<forall>k<length ts. traverse_region fuel s (cs ! k) = Some (Inr (traverse_raii (ts ! k)))"
  shows "traverse_each fuel s w (w + sizeof_ptr * length ts) checksum
         = Some (Inr (fold (\<lambda>c checksum. int32 (checksum + traverse_raii c) smod 43112609) ts checksum))"
  using assms
proof (induction ts arbitrary: cs w checksum)
  case Nil
  then show ?case by (subst traverse_each.simps) simp
next
  case (Cons t ts)
  from Cons.prems(1) obtain c cs' where cs: "cs = c # cs'" and len: "length cs' = length ts"
    by (cases cs) auto
  have c: "cells s w = Some c"
    using Cons.prems(2) [rule_format, of 0] cs by simp
  have tc: "traverse_region fuel s c = Some (Inr (traverse_raii t))"
    using Cons.prems(3) [rule_format, of 0] cs by simp
  have cells': "\<forall>k<length ts. cells s (w + sizeof_ptr + sizeof_ptr * k) = Some (cs' ! k)"
  proof (intro allI impI)
    fix k assume "k < length ts"
    then show "cells s (w + sizeof_ptr + sizeof_ptr * k) = Some (cs' ! k)"
      using Cons.prems(2) [rule_format, of "Suc k"] cs by (simp add: add.assoc)
  qed
  have trav': "\<forall>k<length ts. traverse_region fuel s (cs' ! k) = Some (Inr (traverse_raii (ts ! k)))"
  proof (intro allI impI)
    fix k assume "k < length ts"
    then show "traverse_region fuel s (cs' ! k) = Some (Inr (traverse_raii (ts ! k)))"
      using Cons.prems(3) [rule_format, of "Suc k"] cs by simp
  qed
  note IH = Cons.IH [OF len cells' trav']
  have e: "w + sizeof_ptr * length (t # ts) = w + sizeof_ptr + sizeof_ptr * length ts"
    by simp
  have ne: "w \<noteq> w + sizeof_ptr + sizeof_ptr * length ts"
    "\<not> w + sizeof_ptr + sizeof_ptr * length ts < w + sizeof_ptr"
    by (simp_all add: sizeof_ptr_def)
  show ?case
    unfolding e
    by (subst traverse_each.simps) (simp add: ne c tc IH)
qed

lemma traverse_region_tree_in:
  assumes "tree_in U s q t" "size t \<le> fuel"
  shows "traverse_region fuel s q = Some (Inr (traverse_raii t))"
  using assms
proof (induction arbitrary: fuel rule: tree_in.induct)
  case (tree_inI q nd i ts cs)
  from tree_inI.prems obtain f where fuel: "fuel = Suc f" and f: "size_list size ts \<le> f"
    by (cases fuel) auto
  have sub: "\<forall>k<length ts. traverse_region f s (cs ! k) = Some (Inr (traverse_raii (ts ! k)))"
  proof (intro allI impI)
    fix k assume k: "k < length ts"
    have "size (ts ! k) \<le> size_list size ts"
      using k by (intro size_list_estimation' [of "ts ! k"]) simp_all
    with f have "size (ts ! k) \<le> f" by simp
    moreover have "\<forall>fuel. size (ts ! k) \<le> fuel \<longrightarrow>
        traverse_region fuel s (cs ! k) = Some (Inr (traverse_raii (ts ! k)))"
      using tree_inI.IH k tree_inI.hyps by (auto simp: list_all2_conv_all_nth)
    ultimately show "traverse_region f s (cs ! k) = Some (Inr (traverse_raii (ts ! k)))"
      by blast
  qed
  have cells: "\<forall>k<length ts. cells s (items (children nd) + sizeof_ptr * k) = Some (cs ! k)"
    using tree_inI.hyps by blast
  have e: "end_vec (children nd) = items (children nd) + sizeof_ptr * length ts"
    using tree_inI.hyps by (simp add: end_vec_def item_address_nonneg)
  show ?case
    unfolding fuel
    using traverse_each_children [OF tree_inI.hyps(5) cells sub, of i] tree_inI.hyps
    by (simp add: e begin_vec_def)
qed

text \<open>
  A node with \<open>k\<close> children pushed; the addresses a node owns (the node and the array
  of its vector); the identifiers and the counter after \<open>k\<close> constructions.
\<close>

definition mk_node :: "nat \<Rightarrow> int \<Rightarrow> int \<Rightarrow> int \<Rightarrow> Node" where
  "mk_node it k N i = \<lparr>children = \<lparr>items = it, size_vec = k, max_size = N\<rparr>, node_id = i\<rparr>"

lemma leaf_mk_node: "leaf it N i = mk_node it 0 N i"
  by (simp add: leaf_def mk_node_def)

definition own :: "int \<Rightarrow> nat \<times> nat \<Rightarrow> nat set" where
  "own N c = insert (fst c) (block (snd c) (nat N * sizeof_ptr))"

fun disjoint_list :: "nat set list \<Rightarrow> bool" where
  "disjoint_list [] = True"
| "disjoint_list (X # Xs) = (X \<inter> \<Union>(set Xs) = {} \<and> disjoint_list Xs)"

fun ids_from :: "nat \<Rightarrow> int \<Rightarrow> int list" where
  "ids_from 0 n = []"
| "ids_from (Suc k) n = n # ids_from k (int32 (n + 1))"

fun counter_after :: "nat \<Rightarrow> int \<Rightarrow> int" where
  "counter_after 0 n = n"
| "counter_after (Suc k) n = counter_after k (int32 (n + 1))"

lemma length_ids_from [simp]: "length (ids_from k n) = k"
  by (induction k arbitrary: n) simp_all

lemma raii_add_children_ok:
  assumes "0 \<le> N" "i \<le> N"
  shows "raii_add_children N i (Raii_Node ts idq) n
         = Inr (Raii_Node (ts @ map (Raii_Node []) (ids_from (nat (N - i)) n)) idq,
                counter_after (nat (N - i)) n)"
  using assms
proof (induction k \<equiv> "nat (N - i)" arbitrary: i ts n)
  case 0
  then have "\<not> i < N" by simp
  then show ?case using 0 by (subst raii_add_children.simps) simp
next
  case (Suc k)
  then have lt: "i < N" and k: "k = nat (N - (i + 1))" by linarith+
  have step: "raii_add_child (Raii_Node ts idq) N n
      = Inr (Raii_Node (ts @ [Raii_Node [] n]) idq, int32 (n + 1))"
    using Suc.prems by (simp add: raii_add_child_def raii_Node_def)
  have "raii_add_children N i (Raii_Node ts idq) n
      = raii_add_children N (i + 1) (Raii_Node (ts @ [Raii_Node [] n]) idq) (int32 (n + 1))"
    using lt step by (subst raii_add_children.simps) simp
  also have "\<dots> = Inr (Raii_Node ((ts @ [Raii_Node [] n])
        @ map (Raii_Node []) (ids_from (nat (N - (i + 1))) (int32 (n + 1)))) idq,
      counter_after (nat (N - (i + 1))) (int32 (n + 1)))"
    using Suc.prems lt by (intro Suc.hyps(1) [OF k]) simp_all
  finally show ?case
    using Suc.hyps(2) [symmetric] k by simp
qed

text \<open>
  \<open>kids np N s w cd ids\<close>: the pointer cells from address \<open>w\<close> on hold the
  addresses \<open>map fst cd\<close> of nodes without children whose arrays are at \<open>map snd cd\<close>
  and whose identifiers are \<open>ids\<close>; what these nodes own is allocated.
\<close>

fun kids :: "(nat \<Rightarrow> nat) \<Rightarrow> int \<Rightarrow> state \<Rightarrow> nat \<Rightarrow> (nat \<times> nat) list \<Rightarrow> int list \<Rightarrow> bool" where
  "kids np N s w [] [] = True"
| "kids np N s w (c # cd) (i # ids) =
     (cells s w = Some (fst c) \<and> nodes s (fst c) = Some (mk_node (snd c) 0 N i)
      \<and> own N c \<inter> state_free np s = {}
      \<and> kids np N s (w + sizeof_ptr) cd ids)"
| "kids np N s w _ _ = False"

lemma region_add_children_ok:
  assumes wp: "well_placed np" and N: "0 \<le> N" "N \<le> 512"
    and inv: "alloc_inv np (allocator s)"
    and i: "0 \<le> i" "i \<le> N"
    and q: "nodes s q = Some (mk_node itq i N idq)" "q \<notin> state_free np s"
  shows "\<exists>s' cd. region_add_children np N i q s = Some (Inr s')
      \<and> length cd = nat (N - i)
      \<and> nodes s' q = Some (mk_node itq N N idq)
      \<and> kids np N s' (itq + sizeof_ptr * nat i) cd (ids_from (nat (N - i)) (n_nodes_created s))
      \<and> disjoint_list (map (own N) cd)
      \<and> (\<forall>c\<in>set cd. own N c \<subseteq> state_free np s)
      \<and> n_nodes_created s' = counter_after (nat (N - i)) (n_nodes_created s)
      \<and> alloc_inv np (allocator s')
      \<and> state_free np s' \<subseteq> state_free np s
      \<and> (\<forall>x. x \<noteq> q \<and> x \<notin> state_free np s \<longrightarrow> nodes s' x = nodes s x)
      \<and> (\<forall>y. y < itq + sizeof_ptr * nat i \<or> itq + sizeof_ptr * nat N \<le> y
               \<longrightarrow> cells s' y = cells s y)"
  using inv i q
proof (induction k \<equiv> "nat (N - i)" arbitrary: i s)
  case 0
  then have iN: "i = N" by simp
  have "region_add_children np N i q s = Some (Inr s)"
    using iN by (subst region_add_children.simps) simp
  then show ?case using 0 iN by (intro exI [of _ s] exI [of _ "[]"]) simp
next
  case (Suc k)
  then have lt: "i < N" and k: "k = nat (N - (i + 1))" by linarith+
  let ?nd = "mk_node itq i N idq"
  have nd: "children ?nd = \<lparr>items = itq, size_vec = i, max_size = N\<rparr>" "node_id ?nd = idq"
    by (simp_all add: mk_node_def)
  obtain p it s1 where add: "add_child np q N s = Some (Inr s1)"
    and ca: "child_added np N q s p it s1"
    using add_child_ok [OF wp Suc.prems(1) N Suc.prems(4,5), unfolded nd] Suc.prems(2) lt N
    by auto
  from ca Suc.prems(4) have
    nodes1: "nodes s1 = (nodes s)(p \<mapsto> mk_node it 0 N (n_nodes_created s),
                                 q \<mapsto> mk_node itq (i + 1) N idq)"
    and cells1: "cells s1 = (cells s)(itq + sizeof_ptr * nat i \<mapsto> p)"
    and n1: "n_nodes_created s1 = int32 (n_nodes_created s + 1)"
    and inv1: "alloc_inv np (allocator s1)"
    and free1: "state_free np s1 \<subseteq> state_free np s"
    and p: "p \<in> state_free np s" "p \<notin> state_free np s1"
    and blk: "block it (nat N * sizeof_ptr) \<subseteq> state_free np s"
      "block it (nat N * sizeof_ptr) \<inter> state_free np s1 = {}"
    by (simp_all add: child_added_def leaf_mk_node mk_node_def)
  have pq: "p \<noteq> q" using p(1) Suc.prems(5) by auto
  have q1: "nodes s1 q = Some (mk_node itq (i + 1) N idq)" "q \<notin> state_free np s1"
    using nodes1 free1 Suc.prems(5) by auto
  have i1: "0 \<le> i + 1" "i + 1 \<le> N" using Suc.prems(2) lt by simp_all
  from Suc.hyps(1) [OF k inv1 i1 q1] obtain s' cd where
    run: "region_add_children np N (i + 1) q s1 = Some (Inr s')"
    and len: "length cd = nat (N - (i + 1))"
    and q': "nodes s' q = Some (mk_node itq N N idq)"
    and kd: "kids np N s' (itq + sizeof_ptr * nat (i + 1)) cd
               (ids_from (nat (N - (i + 1))) (n_nodes_created s1))"
    and dl: "disjoint_list (map (own N) cd)"
    and sub: "\<forall>c\<in>set cd. own N c \<subseteq> state_free np s1"
    and n': "n_nodes_created s' = counter_after (nat (N - (i + 1))) (n_nodes_created s1)"
    and inv': "alloc_inv np (allocator s')"
    and free': "state_free np s' \<subseteq> state_free np s1"
    and fr_nodes: "\<forall>x. x \<noteq> q \<and> x \<notin> state_free np s1 \<longrightarrow> nodes s' x = nodes s1 x"
    and fr_cells: "\<forall>y. y < itq + sizeof_ptr * nat (i + 1) \<or> itq + sizeof_ptr * nat N \<le> y
               \<longrightarrow> cells s' y = cells s1 y"
    by blast
  have suc: "nat (i + 1) = Suc (nat i)" using Suc.prems(2) by simp
  have kk: "nat (N - i) = Suc (nat (N - (i + 1)))" using lt by simp
  have res: "region_add_children np N i q s = Some (Inr s')"
    using lt add run by (subst region_add_children.simps) simp
  have own_p: "own N (p, it) \<subseteq> state_free np s" "own N (p, it) \<inter> state_free np s1 = {}"
    using p blk by (auto simp: own_def)
  have cell_p: "cells s' (itq + sizeof_ptr * nat i) = Some p"
  proof -
    have "itq + sizeof_ptr * nat i < itq + sizeof_ptr * nat (i + 1)"
      by (simp add: suc sizeof_ptr_def)
    with fr_cells have "cells s' (itq + sizeof_ptr * nat i) = cells s1 (itq + sizeof_ptr * nat i)"
      by blast
    then show ?thesis using cells1 by simp
  qed
  have node_p: "nodes s' p = Some (mk_node it 0 N (n_nodes_created s))"
    using fr_nodes pq p(2) nodes1 by simp
  have kids': "kids np N s' (itq + sizeof_ptr * nat i) ((p, it) # cd)
      (ids_from (nat (N - i)) (n_nodes_created s))"
  proof -
    have "own N (p, it) \<inter> state_free np s' = {}" using own_p(2) free' by auto
    moreover have w: "itq + sizeof_ptr * nat i + sizeof_ptr = itq + sizeof_ptr * nat (i + 1)"
      by (simp add: suc)
    moreover have "kids np N s' (itq + sizeof_ptr * nat i + sizeof_ptr) cd
        (ids_from (nat (N - (i + 1))) (int32 (n_nodes_created s + 1)))"
      unfolding w using kd n1 by simp
    ultimately show ?thesis
      unfolding kk using cell_p node_p by simp
  qed
  have dl': "disjoint_list (map (own N) ((p, it) # cd))"
    using dl sub own_p(2) by auto
  have sub': "\<forall>c\<in>set ((p, it) # cd). own N c \<subseteq> state_free np s"
    using sub own_p(1) free1 by auto
  have n'': "n_nodes_created s' = counter_after (nat (N - i)) (n_nodes_created s)"
    unfolding kk using n' n1 by simp
  have fr_nodes': "\<forall>x. x \<noteq> q \<and> x \<notin> state_free np s \<longrightarrow> nodes s' x = nodes s x"
  proof (intro allI impI)
    fix x assume x: "x \<noteq> q \<and> x \<notin> state_free np s"
    then have "x \<noteq> p" "x \<notin> state_free np s1" using p(1) free1 by auto
    then show "nodes s' x = nodes s x" using fr_nodes x nodes1 by simp
  qed
  have fr_cells': "\<forall>y. y < itq + sizeof_ptr * nat i \<or> itq + sizeof_ptr * nat N \<le> y
               \<longrightarrow> cells s' y = cells s y"
  proof (intro allI impI)
    fix y assume y: "y < itq + sizeof_ptr * nat i \<or> itq + sizeof_ptr * nat N \<le> y"
    have le: "sizeof_ptr * nat i < sizeof_ptr * nat N"
      using lt Suc.prems(2) by (simp add: sizeof_ptr_def)
    from y le have ne: "y \<noteq> itq + sizeof_ptr * nat i" by auto
    from y have "y < itq + sizeof_ptr * nat (i + 1) \<or> itq + sizeof_ptr * nat N \<le> y"
      by (auto simp: suc)
    with fr_cells have "cells s' y = cells s1 y" by blast
    then show "cells s' y = cells s y" using cells1 ne by simp
  qed
  have len': "length ((p, it) # cd) = nat (N - i)" using len kk by simp
  show ?case
    using res len' q' kids' dl' sub' n'' inv' free' free1 fr_nodes' fr_cells'
    by (intro exI [of _ s'] exI [of _ "(p, it) # cd"]) (simp only: , blast)
qed

text \<open>
  What \<^verbatim>\<open>build_subtree\<close> achieves on a node without children at address \<open>q\<close>: the
  ownership-based \<^verbatim>\<open>build_subtree\<close> started from the same counter returns a tree and the
  same final counter, the node at \<open>q\<close> represents that tree inside the addresses it
  owned or that were allocated meanwhile, the invariant of the allocator is kept, and
  memory that was allocated to others before is unchanged.
\<close>

definition subtree_built ::
  "(nat \<Rightarrow> nat) \<Rightarrow> int \<Rightarrow> int \<Rightarrow> state \<Rightarrow> nat \<Rightarrow> int \<Rightarrow> nat \<Rightarrow> state \<Rightarrow> bool"
where
  "subtree_built np N l s q i it s' =
     ((\<exists>t. raii_build_subtree N (Raii_Node [] i) l (n_nodes_created s)
              = Inr (t, n_nodes_created s')
           \<and> tree_in (own N (q, it) \<union> (state_free np s - state_free np s')) s' q t)
      \<and> alloc_inv np (allocator s')
      \<and> state_free np s' \<subseteq> state_free np s
      \<and> (\<forall>x. x \<notin> own N (q, it) \<and> x \<notin> state_free np s
             \<longrightarrow> nodes s' x = nodes s x \<and> cells s' x = cells s x))"

definition subtree_spec :: "(nat \<Rightarrow> nat) \<Rightarrow> int \<Rightarrow> int \<Rightarrow> bool" where
  "subtree_spec np N l =
     (\<forall>s q i it. alloc_inv np (allocator s) \<and> nodes s q = Some (mk_node it 0 N i)
         \<and> own N (q, it) \<inter> state_free np s = {}
       \<longrightarrow> (\<exists>s'. region_build_subtree np N q l s = Some (Inr s')
                 \<and> subtree_built np N l s q i it s'))"

lemma kids_nth:
  assumes "kids np N s w cd ids"
  shows "length ids = length cd"
    and "\<forall>j<length cd. cells s (w + sizeof_ptr * j) = Some (fst (cd ! j))
            \<and> nodes s (fst (cd ! j)) = Some (mk_node (snd (cd ! j)) 0 N (ids ! j))
            \<and> own N (cd ! j) \<inter> state_free np s = {}"
proof -
  have "length ids = length cd
      \<and> (\<forall>j<length cd. cells s (w + sizeof_ptr * j) = Some (fst (cd ! j))
            \<and> nodes s (fst (cd ! j)) = Some (mk_node (snd (cd ! j)) 0 N (ids ! j))
            \<and> own N (cd ! j) \<inter> state_free np s = {})"
    using assms
  proof (induction np N s w cd ids rule: kids.induct)
    case (1 np N s w)
    then show ?case by simp
  next
    case (2 np N s w c cd i ids)
    then have IH: "length ids = length cd
      \<and> (\<forall>j<length cd. cells s (w + sizeof_ptr + sizeof_ptr * j) = Some (fst (cd ! j))
            \<and> nodes s (fst (cd ! j)) = Some (mk_node (snd (cd ! j)) 0 N (ids ! j))
            \<and> own N (cd ! j) \<inter> state_free np s = {})"
      by simp
    have "cells s (w + sizeof_ptr * j) = Some (fst ((c # cd) ! j))
            \<and> nodes s (fst ((c # cd) ! j)) = Some (mk_node (snd ((c # cd) ! j)) 0 N ((i # ids) ! j))
            \<and> own N ((c # cd) ! j) \<inter> state_free np s = {}"
      if "j < length (c # cd)" for j
    proof (cases j)
      case 0
      then show ?thesis using "2.prems" by simp
    next
      case (Suc k)
      then show ?thesis using IH that by (simp add: add.assoc)
    qed
    then show ?case using IH by simp
  qed simp_all
  then show "length ids = length cd"
    and "\<forall>j<length cd. cells s (w + sizeof_ptr * j) = Some (fst (cd ! j))
            \<and> nodes s (fst (cd ! j)) = Some (mk_node (snd (cd ! j)) 0 N (ids ! j))
            \<and> own N (cd ! j) \<inter> state_free np s = {}"
    by simp_all
qed

lemma kids_own_free:
  assumes "kids np N s w cd ids" "c \<in> set cd"
  shows "own N c \<inter> state_free np s = {}"
proof -
  from assms(2) obtain j where "j < length cd" "cd ! j = c" by (auto simp: in_set_conv_nth)
  with kids_nth(2) [OF assms(1)] show ?thesis by auto
qed

lemma kids_frame:
  assumes "kids np N s w cd ids"
    and "\<forall>j<length cd. cells s' (w + sizeof_ptr * j) = cells s (w + sizeof_ptr * j)"
    and "\<forall>c\<in>set cd. nodes s' (fst c) = nodes s (fst c)"
    and "state_free np s' \<subseteq> state_free np s"
  shows "kids np N s' w cd ids"
  using assms
proof (induction np N s w cd ids rule: kids.induct)
  case (1 np N s w)
  then show ?case by simp
next
  case (2 np N s w c cd i ids)
  have "cells s' w = cells s w" using "2.prems"(2) [rule_format, of 0] by simp
  moreover have "\<forall>j<length cd. cells s' (w + sizeof_ptr + sizeof_ptr * j)
      = cells s (w + sizeof_ptr + sizeof_ptr * j)"
  proof (intro allI impI)
    fix j assume "j < length cd"
    then show "cells s' (w + sizeof_ptr + sizeof_ptr * j) = cells s (w + sizeof_ptr + sizeof_ptr * j)"
      using "2.prems"(2) [rule_format, of "Suc j"] by (simp add: add.assoc)
  qed
  ultimately show ?case using 2 by auto
qed simp_all

lemma fst_in_own: "fst c \<in> own N c"
  by (simp add: own_def)

lemma region_build_each_ok:
  assumes spec: "subtree_spec np N l"
    and inv: "alloc_inv np (allocator s)"
    and kd: "kids np N s w cd ids"
    and dl: "disjoint_list (map (own N) cd)"
    and W: "\<forall>j<length cd. w + sizeof_ptr * j \<notin> state_free np s
              \<and> (\<forall>c\<in>set cd. w + sizeof_ptr * j \<notin> own N c)"
  shows "\<exists>s' ts. region_build_each np N w (w + sizeof_ptr * length cd) l s = Some (Inr s')
      \<and> raii_build_each N (map (Raii_Node []) ids) l (n_nodes_created s)
          = Inr (ts, n_nodes_created s')
      \<and> length ts = length cd
      \<and> (\<forall>j<length cd. cells s' (w + sizeof_ptr * j) = Some (fst (cd ! j)))
      \<and> list_all2 (tree_in (\<Union>(set (map (own N) cd)) \<union> (state_free np s - state_free np s')) s')
           (map fst cd) ts
      \<and> alloc_inv np (allocator s')
      \<and> state_free np s' \<subseteq> state_free np s
      \<and> (\<forall>x. x \<notin> \<Union>(set (map (own N) cd)) \<and> x \<notin> state_free np s
             \<longrightarrow> nodes s' x = nodes s x \<and> cells s' x = cells s x)"
  using inv kd dl W
proof (induction cd arbitrary: s w ids)
  case Nil
  then have ids: "ids = []" by (cases ids) simp_all
  have "region_build_each np N w (w + sizeof_ptr * length ([] :: (nat \<times> nat) list)) l s
      = Some (Inr s)"
    by (subst region_build_each.simps) simp
  then show ?case using Nil ids by (intro exI [of _ s] exI [of _ "[]"]) simp
next
  case (Cons c cd)
  from Cons.prems(2) obtain i ids' where ids: "ids = i # ids'"
    by (cases ids) simp_all
  from Cons.prems(2) ids have
    cw: "cells s w = Some (fst c)"
    and nc: "nodes s (fst c) = Some (mk_node (snd c) 0 N i)"
    and oc: "own N c \<inter> state_free np s = {}"
    and kd': "kids np N s (w + sizeof_ptr) cd ids'"
    by simp_all
  from Cons.prems(3) have disj: "own N c \<inter> \<Union>(set (map (own N) cd)) = {}"
    and dl': "disjoint_list (map (own N) cd)"
    by simp_all
  have c_eq: "c = (fst c, snd c)" by simp
  \<comment> \<open>the subtree of the first child\<close>
  from spec [unfolded subtree_spec_def, rule_format, of s "fst c" "snd c" i]
    Cons.prems(1) nc oc
  obtain s1 where run1: "region_build_subtree np N (fst c) l s = Some (Inr s1)"
    and built: "subtree_built np N l s (fst c) i (snd c) s1"
    by auto
  from built obtain t where
    raii1: "raii_build_subtree N (Raii_Node [] i) l (n_nodes_created s)
              = Inr (t, n_nodes_created s1)"
    and tree1: "tree_in (own N c \<union> (state_free np s - state_free np s1)) s1 (fst c) t"
    and inv1: "alloc_inv np (allocator s1)"
    and free1: "state_free np s1 \<subseteq> state_free np s"
    and frame1: "\<forall>x. x \<notin> own N c \<and> x \<notin> state_free np s
             \<longrightarrow> nodes s1 x = nodes s x \<and> cells s1 x = cells s x"
    unfolding subtree_built_def by auto
  \<comment> \<open>the other children are untouched\<close>
  have own_cd: "own N c' \<inter> state_free np s = {}" if "c' \<in> set cd" for c'
    using kids_own_free [OF kd' that] .
  have cells_same: "\<forall>j<length cd. cells s1 (w + sizeof_ptr + sizeof_ptr * j)
      = cells s (w + sizeof_ptr + sizeof_ptr * j)"
  proof (intro allI impI)
    fix j assume j: "j < length cd"
    from Cons.prems(4) [rule_format, of "Suc j"] j
    have "w + sizeof_ptr + sizeof_ptr * j \<notin> state_free np s"
      "w + sizeof_ptr + sizeof_ptr * j \<notin> own N c"
      by (simp_all add: add.assoc)
    with frame1 show "cells s1 (w + sizeof_ptr + sizeof_ptr * j)
      = cells s (w + sizeof_ptr + sizeof_ptr * j)" by blast
  qed
  have nodes_same: "\<forall>c'\<in>set cd. nodes s1 (fst c') = nodes s (fst c')"
  proof
    fix c' assume c': "c' \<in> set cd"
    have "fst c' \<in> own N c'" by (rule fst_in_own)
    then have "fst c' \<notin> own N c" "fst c' \<notin> state_free np s"
      using disj c' own_cd [OF c'] by auto
    with frame1 show "nodes s1 (fst c') = nodes s (fst c')" by blast
  qed
  have kd1: "kids np N s1 (w + sizeof_ptr) cd ids'"
    using kd' cells_same nodes_same free1 by (rule kids_frame)
  have W1: "\<forall>j<length cd. w + sizeof_ptr + sizeof_ptr * j \<notin> state_free np s1
              \<and> (\<forall>c\<in>set cd. w + sizeof_ptr + sizeof_ptr * j \<notin> own N c)"
  proof (intro allI impI)
    fix j assume j: "j < length cd"
    from Cons.prems(4) [rule_format, of "Suc j"] j free1
    show "w + sizeof_ptr + sizeof_ptr * j \<notin> state_free np s1
              \<and> (\<forall>c\<in>set cd. w + sizeof_ptr + sizeof_ptr * j \<notin> own N c)"
      by (auto simp: add.assoc)
  qed
  from Cons.IH [OF inv1 kd1 dl' W1] obtain s' ts where
    run': "region_build_each np N (w + sizeof_ptr) (w + sizeof_ptr + sizeof_ptr * length cd) l s1
            = Some (Inr s')"
    and raii': "raii_build_each N (map (Raii_Node []) ids') l (n_nodes_created s1)
          = Inr (ts, n_nodes_created s')"
    and len': "length ts = length cd"
    and cells': "\<forall>j<length cd. cells s' (w + sizeof_ptr + sizeof_ptr * j) = Some (fst (cd ! j))"
    and trees': "list_all2
        (tree_in (\<Union>(set (map (own N) cd)) \<union> (state_free np s1 - state_free np s')) s')
        (map fst cd) ts"
    and inv': "alloc_inv np (allocator s')"
    and free': "state_free np s' \<subseteq> state_free np s1"
    and frame': "\<forall>x. x \<notin> \<Union>(set (map (own N) cd)) \<and> x \<notin> state_free np s1
             \<longrightarrow> nodes s' x = nodes s1 x \<and> cells s' x = cells s1 x"
    by blast
  let ?U = "\<Union>(set (map (own N) (c # cd))) \<union> (state_free np s - state_free np s')"
  \<comment> \<open>the result of the loop\<close>
  have e: "w + sizeof_ptr * length (c # cd) = w + sizeof_ptr + sizeof_ptr * length cd"
    by simp
  have guards: "w \<noteq> w + sizeof_ptr + sizeof_ptr * length cd"
    "\<not> w + sizeof_ptr + sizeof_ptr * length cd < w + sizeof_ptr"
    by (simp_all add: sizeof_ptr_def)
  have res: "region_build_each np N w (w + sizeof_ptr * length (c # cd)) l s = Some (Inr s')"
    unfolding e by (subst region_build_each.simps) (simp add: guards cw run1 run')
  have raii: "raii_build_each N (map (Raii_Node []) ids) l (n_nodes_created s)
      = Inr (t # ts, n_nodes_created s')"
    using raii1 raii' ids by simp
  \<comment> \<open>the first child's tree survives the rest of the loop\<close>
  have keep: "\<forall>x\<in>own N c \<union> (state_free np s - state_free np s1).
      nodes s' x = nodes s1 x \<and> cells s' x = cells s1 x"
  proof
    fix x assume x: "x \<in> own N c \<union> (state_free np s - state_free np s1)"
    have "x \<notin> \<Union>(set (map (own N) cd))"
    proof
      assume "x \<in> \<Union>(set (map (own N) cd))"
      then obtain c' where c': "c' \<in> set cd" "x \<in> own N c'" by auto
      with own_cd [OF c'(1)] have "x \<notin> state_free np s" by auto
      with x c' disj show False by auto
    qed
    moreover have "x \<notin> state_free np s1" using x oc free1 by auto
    ultimately show "nodes s' x = nodes s1 x \<and> cells s' x = cells s1 x"
      using frame' by blast
  qed
  have "tree_in (own N c \<union> (state_free np s - state_free np s1)) s' (fst c) t"
    using tree1 keep by (rule tree_in_frame)
  then have tree_c: "tree_in ?U s' (fst c) t"
    by (rule tree_in_mono) (use free' in auto)
  have trees: "list_all2 (tree_in ?U s') (map fst cd) ts"
    using trees'
  proof (rule list_all2_mono)
    fix q u assume "tree_in (\<Union>(set (map (own N) cd)) \<union> (state_free np s1 - state_free np s')) s' q u"
    then show "tree_in ?U s' q u"
      by (rule tree_in_mono) (use free1 in auto)
  qed
  have w_same: "cells s' w = Some (fst c)"
  proof -
    from Cons.prems(4) [rule_format, of 0]
    have w: "w \<notin> state_free np s" "w \<notin> own N c" "\<forall>c'\<in>set cd. w \<notin> own N c'" by simp_all
    then have "w \<notin> \<Union>(set (map (own N) cd))" "w \<notin> state_free np s1" using free1 by auto
    with frame' have "cells s' w = cells s1 w" by blast
    also have "\<dots> = cells s w" using frame1 w by blast
    finally show ?thesis using cw by simp
  qed
  have cells: "\<forall>j<length (c # cd). cells s' (w + sizeof_ptr * j) = Some (fst ((c # cd) ! j))"
  proof (intro allI impI)
    fix j assume j: "j < length (c # cd)"
    show "cells s' (w + sizeof_ptr * j) = Some (fst ((c # cd) ! j))"
    proof (cases j)
      case 0
      then show ?thesis using w_same by simp
    next
      case (Suc k)
      then show ?thesis using cells' j by (simp add: add.assoc)
    qed
  qed
  have frame: "\<forall>x. x \<notin> \<Union>(set (map (own N) (c # cd))) \<and> x \<notin> state_free np s
             \<longrightarrow> nodes s' x = nodes s x \<and> cells s' x = cells s x"
  proof (intro allI impI)
    fix x assume x: "x \<notin> \<Union>(set (map (own N) (c # cd))) \<and> x \<notin> state_free np s"
    then have "x \<notin> own N c" "x \<notin> \<Union>(set (map (own N) cd))" "x \<notin> state_free np s1"
      using free1 by auto
    with frame1 frame' x show "nodes s' x = nodes s x \<and> cells s' x = cells s x"
      by metis
  qed
  have "list_all2 (tree_in ?U s') (map fst (c # cd)) (t # ts)"
    using tree_c trees by simp
  moreover have "length (t # ts) = length (c # cd)" using len' by simp
  moreover have "state_free np s' \<subseteq> state_free np s" using free' free1 by auto
  ultimately show ?case
    using res raii cells inv' frame
    by (intro exI [of _ s'] exI [of _ "t # ts"] conjI) assumption+
qed

lemma int32_pred_less:
  assumes "0 < int32 (l - 1)"
  shows "nat (int32 (int32 (l - 1) - 1)) < nat (int32 (l - 1))"
proof -
  have "int32 (l - 1) < 2 ^ 31"
    unfolding int32_def using signed_take_bit_int_less_exp [of 31 "l - 1"] by simp
  then have "int32 (int32 (l - 1) - 1) = int32 (l - 1) - 1"
    using assms by (intro int32_id) simp_all
  then show ?thesis using assms by simp
qed

lemma tree_in_leaf:
  assumes "c \<in> U" "nodes s c = Some (mk_node it 0 N i)"
  shows "tree_in U s c (Raii_Node [] i)"
  using assms by (intro tree_in.intros [of c U s "mk_node it 0 N i" i "[]" "[]"])
    (simp_all add: mk_node_def)

lemma subtree_spec_all:
  assumes wp: "well_placed np" and N: "0 \<le> N" "N \<le> 512"
  shows "subtree_spec np N l"
proof (induction "nat (int32 (l - 1))" arbitrary: l rule: less_induct)
  case less
  show ?case
    unfolding subtree_spec_def
  proof (intro allI impI, elim conjE)
    fix s q i it
    assume inv: "alloc_inv np (allocator s)"
      and nq: "nodes s q = Some (mk_node it 0 N i)"
      and oq: "own N (q, it) \<inter> state_free np s = {}"
    let ?F = "state_free np s"
    have q_free: "q \<notin> ?F" and blk_free: "block it (nat N * sizeof_ptr) \<inter> ?F = {}"
      using oq by (auto simp: own_def)
    \<comment> \<open>the first loop: the children\<close>
    from region_add_children_ok [OF wp N inv _ N(1) nq q_free]
    obtain s1 cd where
      add: "region_add_children np N 0 q s = Some (Inr s1)"
      and len: "length cd = nat N"
      and q1: "nodes s1 q = Some (mk_node it N N i)"
      and kd: "kids np N s1 it cd (ids_from (nat N) (n_nodes_created s))"
      and dl: "disjoint_list (map (own N) cd)"
      and sub: "\<forall>c\<in>set cd. own N c \<subseteq> ?F"
      and n1: "n_nodes_created s1 = counter_after (nat N) (n_nodes_created s)"
      and inv1: "alloc_inv np (allocator s1)"
      and free1: "state_free np s1 \<subseteq> ?F"
      and fr_nodes: "\<forall>x. x \<noteq> q \<and> x \<notin> ?F \<longrightarrow> nodes s1 x = nodes s x"
      and fr_cells: "\<forall>y. y < it + sizeof_ptr * nat 0 \<or> it + sizeof_ptr * nat N \<le> y
               \<longrightarrow> cells s1 y = cells s y"
      by auto
    let ?ids = "ids_from (nat N) (n_nodes_created s)"
    have raii_add: "raii_add_children N 0 (Raii_Node [] i) (n_nodes_created s)
        = Inr (Raii_Node (map (Raii_Node []) ?ids) i, n_nodes_created s1)"
      using raii_add_children_ok [OF N(1) N(1), of "[]" i "n_nodes_created s"] n1 by simp
    note kn = kids_nth [OF kd]
    have own1: "own N c \<inter> state_free np s1 = {}" if "c \<in> set cd" for c
      using kids_own_free [OF kd that] .
    have frame1: "\<forall>x. x \<notin> own N (q, it) \<and> x \<notin> ?F
             \<longrightarrow> nodes s1 x = nodes s x \<and> cells s1 x = cells s x"
    proof (intro allI impI)
      fix x assume x: "x \<notin> own N (q, it) \<and> x \<notin> ?F"
      then have "x \<noteq> q" "x < it \<or> it + sizeof_ptr * nat N \<le> x"
        by (auto simp: own_def block_def mult.commute)
      with fr_nodes fr_cells x show "nodes s1 x = nodes s x \<and> cells s1 x = cells s x"
        by auto
    qed
    have cell_in: "it + sizeof_ptr * k \<in> own N (q, it)" if "k < nat N" for k
    proof -
      have "sizeof_ptr * k < sizeof_ptr * nat N" using that by (simp add: sizeof_ptr_def)
      then show ?thesis by (simp add: own_def block_def mult.commute)
    qed
    show "\<exists>s'. region_build_subtree np N q l s = Some (Inr s')
                 \<and> subtree_built np N l s q i it s'"
    proof (cases "int32 (l - 1) \<le> 0")
      case True
      have res: "region_build_subtree np N q l s = Some (Inr s1)"
        using add True by (subst region_build_subtree.simps) simp
      have raii: "raii_build_subtree N (Raii_Node [] i) l (n_nodes_created s)
          = Inr (Raii_Node (map (Raii_Node []) ?ids) i, n_nodes_created s1)"
        using raii_add True by simp
      let ?U = "own N (q, it) \<union> (?F - state_free np s1)"
      have kids_trees: "list_all2 (tree_in ?U s1) (map fst cd) (map (Raii_Node []) ?ids)"
        unfolding list_all2_conv_all_nth
      proof (intro conjI allI impI)
        show "length (map fst cd) = length (map (Raii_Node []) ?ids)" using len by simp
        fix j assume "j < length (map fst cd)"
        then have j: "j < length cd" by simp
        then have mem: "cd ! j \<in> set cd" by simp
        have "fst (cd ! j) \<in> own N (cd ! j)" by (rule fst_in_own)
        then have "fst (cd ! j) \<in> ?U" using sub mem own1 [OF mem] by auto
        moreover have "nodes s1 (fst (cd ! j)) = Some (mk_node (snd (cd ! j)) 0 N (?ids ! j))"
          using kn(2) j by blast
        ultimately have "tree_in ?U s1 (fst (cd ! j)) (Raii_Node [] (?ids ! j))"
          by (rule tree_in_leaf)
        then show "tree_in ?U s1 (map fst cd ! j) (map (Raii_Node []) ?ids ! j)"
          using j len by simp
      qed
      have "tree_in ?U s1 q (Raii_Node (map (Raii_Node []) ?ids) i)"
      proof (rule tree_in.intros [of q ?U s1 "mk_node it N N i" i _ "map fst cd"])
        show "q \<in> ?U" by (simp add: own_def)
        show "nodes s1 q = Some (mk_node it N N i)" by (fact q1)
        show "node_id (mk_node it N N i) = i" by (simp add: mk_node_def)
        show "size_vec (children (mk_node it N N i)) = int (length (map (Raii_Node []) ?ids))"
          using N(1) by (simp add: mk_node_def)
        show "length (map fst cd) = length (map (Raii_Node []) ?ids)" using len by simp
        show "\<forall>k<length (map (Raii_Node []) ?ids).
            items (children (mk_node it N N i)) + sizeof_ptr * k \<in> ?U
            \<and> cells s1 (items (children (mk_node it N N i)) + sizeof_ptr * k)
                = Some (map fst cd ! k)"
          using kn(2) cell_in len by (simp add: mk_node_def)
        show "list_all2 (tree_in ?U s1) (map fst cd) (map (Raii_Node []) ?ids)"
          by (fact kids_trees)
      qed
      then have "subtree_built np N l s q i it s1"
        unfolding subtree_built_def using raii inv1 free1 frame1 by blast
      with res show ?thesis by blast
    next
      case False
      let ?l' = "int32 (l - 1)"
      have pos: "0 < ?l'" using False by simp
      have spec': "subtree_spec np N ?l'"
        using int32_pred_less [OF pos] by (rule less)
      have W: "\<forall>j<length cd. it + sizeof_ptr * j \<notin> state_free np s1
              \<and> (\<forall>c\<in>set cd. it + sizeof_ptr * j \<notin> own N c)"
      proof (intro allI impI)
        fix j assume "j < length cd"
        then have "it + sizeof_ptr * j \<in> own N (q, it)" using cell_in len by simp
        then have "it + sizeof_ptr * j \<notin> ?F" using oq by auto
        then show "it + sizeof_ptr * j \<notin> state_free np s1
              \<and> (\<forall>c\<in>set cd. it + sizeof_ptr * j \<notin> own N c)"
          using free1 sub by auto
      qed
      from region_build_each_ok [OF spec' inv1 kd dl W] obtain s' ts where
        each: "region_build_each np N it (it + sizeof_ptr * length cd) ?l' s1 = Some (Inr s')"
        and raii_each: "raii_build_each N (map (Raii_Node []) ?ids) ?l' (n_nodes_created s1)
            = Inr (ts, n_nodes_created s')"
        and len_ts: "length ts = length cd"
        and cells': "\<forall>j<length cd. cells s' (it + sizeof_ptr * j) = Some (fst (cd ! j))"
        and trees: "list_all2
            (tree_in (\<Union>(set (map (own N) cd)) \<union> (state_free np s1 - state_free np s')) s')
            (map fst cd) ts"
        and inv': "alloc_inv np (allocator s')"
        and free': "state_free np s' \<subseteq> state_free np s1"
        and frame': "\<forall>x. x \<notin> \<Union>(set (map (own N) cd)) \<and> x \<notin> state_free np s1
             \<longrightarrow> nodes s' x = nodes s1 x \<and> cells s' x = cells s1 x"
        by blast
      have be: "begin_vec (children (mk_node it N N i)) = it"
        "end_vec (children (mk_node it N N i)) = it + sizeof_ptr * length cd"
        using N(1) len by (simp_all add: begin_vec_def end_vec_def mk_node_def item_address_nonneg)
      have res: "region_build_subtree np N q l s = Some (Inr s')"
        using add False q1 each by (subst region_build_subtree.simps) (simp add: be)
      have raii: "raii_build_subtree N (Raii_Node [] i) l (n_nodes_created s)
          = Inr (Raii_Node ts i, n_nodes_created s')"
        using raii_add False raii_each by simp
      let ?U = "own N (q, it) \<union> (?F - state_free np s')"
      have q_keep: "nodes s' q = Some (mk_node it N N i)"
      proof -
        have "q \<notin> \<Union>(set (map (own N) cd))" using sub q_free by auto
        moreover have "q \<notin> state_free np s1" using q_free free1 by auto
        ultimately show ?thesis using frame' q1 by simp
      qed
      have trees_U: "list_all2 (tree_in ?U s') (map fst cd) ts"
        using trees
      proof (rule list_all2_mono)
        fix c u
        assume "tree_in (\<Union>(set (map (own N) cd)) \<union> (state_free np s1 - state_free np s')) s' c u"
        then show "tree_in ?U s' c u"
        proof (rule tree_in_mono)
          have "own N c' \<subseteq> ?F - state_free np s'" if "c' \<in> set cd" for c'
            using sub that own1 [OF that] free' by auto
          then show "\<Union>(set (map (own N) cd)) \<union> (state_free np s1 - state_free np s') \<subseteq> ?U"
            using free1 by auto
        qed
      qed
      have "tree_in ?U s' q (Raii_Node ts i)"
      proof (rule tree_in.intros [of q ?U s' "mk_node it N N i" i _ "map fst cd"])
        show "q \<in> ?U" by (simp add: own_def)
        show "nodes s' q = Some (mk_node it N N i)" by (fact q_keep)
        show "node_id (mk_node it N N i) = i" by (simp add: mk_node_def)
        show "size_vec (children (mk_node it N N i)) = int (length ts)"
          using N(1) len len_ts by (simp add: mk_node_def)
        show "length (map fst cd) = length ts" using len_ts by simp
        show "\<forall>k<length ts.
            items (children (mk_node it N N i)) + sizeof_ptr * k \<in> ?U
            \<and> cells s' (items (children (mk_node it N N i)) + sizeof_ptr * k)
                = Some (map fst cd ! k)"
          using cells' cell_in len len_ts by (simp add: mk_node_def)
        show "list_all2 (tree_in ?U s') (map fst cd) ts" by (fact trees_U)
      qed
      moreover have "state_free np s' \<subseteq> ?F" using free' free1 by auto
      moreover have "\<forall>x. x \<notin> own N (q, it) \<and> x \<notin> ?F
             \<longrightarrow> nodes s' x = nodes s x \<and> cells s' x = cells s x"
      proof (intro allI impI)
        fix x assume x: "x \<notin> own N (q, it) \<and> x \<notin> ?F"
        then have "x \<notin> \<Union>(set (map (own N) cd))" "x \<notin> state_free np s1"
          using sub free1 by auto
        with frame' frame1 x show "nodes s' x = nodes s x \<and> cells s' x = cells s x"
          by metis
      qed
      ultimately have "subtree_built np N l s q i it s'"
        unfolding subtree_built_def using raii inv' by blast
      with res show ?thesis by blast
    qed
  qed
qed

text \<open>
  The local variable \<^verbatim>\<open>root\<close> is not part of any page of the region.
\<close>

definition stack_address :: "(nat \<Rightarrow> nat) \<Rightarrow> nat \<Rightarrow> bool" where
  "stack_address np root = (\<forall>i. block root sizeof_Node \<inter> page_bytes (np i) = {})"

lemma state_free_init:
  "state_free np state_init = (\<Union>i. page_bytes (np i))"
  by (auto simp: state_free_def state_init_def free_bytes_def active_bytes_def Allocator_init_def)

lemma region_build_tree_refines:
  assumes wp: "well_placed np" and root: "stack_address np root" and N: "0 \<le> N" "N \<le> 512"
  shows "\<exists>s t U. region_build_tree np root N D state_init = Some (Inr s)
           \<and> raii_build_tree N D 0 = Inr (t, n_nodes_created s)
           \<and> tree_in U s root t"
proof -
  have inv0: "alloc_inv np (allocator state_init)"
    by (simp add: state_init_def alloc_inv_init)
  from Node_ctor_ok [OF wp inv0 N, of root] obtain it a' where
    ctor: "Node_ctor np root N state_init
             = Some (Inr (state_init\<lparr>allocator := a',
                    nodes := (nodes state_init)(root \<mapsto> leaf it N (n_nodes_created state_init)),
                    n_nodes_created := int32 (n_nodes_created state_init + 1)\<rparr>))"
    and post: "alloc_post np (allocator state_init) (nat N * sizeof_ptr) 8 it a'"
    by blast
  let ?s1 = "state_init\<lparr>allocator := a',
                    nodes := (nodes state_init)(root \<mapsto> leaf it N (n_nodes_created state_init)),
                    n_nodes_created := int32 (n_nodes_created state_init + 1)\<rparr>"
  have inv1: "alloc_inv np (allocator ?s1)" using post by (simp add: alloc_post_def)
  have n1: "nodes ?s1 root = Some (mk_node it 0 N 0)"
    by (simp add: leaf_mk_node state_init_def)
  have free1: "state_free np ?s1 \<subseteq> state_free np state_init - block it (nat N * sizeof_ptr)"
    using post by (simp add: alloc_post_def state_free_def)
  have "root \<in> block root sizeof_Node" by (simp add: block_def sizeof_Node_def)
  then have "root \<notin> state_free np state_init"
    using root unfolding stack_address_def state_free_init by blast
  then have own1: "own N (root, it) \<inter> state_free np ?s1 = {}"
    using free1 by (auto simp: own_def)
  from subtree_spec_all [OF wp N, of D, unfolded subtree_spec_def, rule_format, of ?s1 root it 0]
    inv1 n1 own1
  obtain s' where run: "region_build_subtree np N root D ?s1 = Some (Inr s')"
    and built: "subtree_built np N D ?s1 root 0 it s'"
    by blast
  from built obtain t where
    raii: "raii_build_subtree N (Raii_Node [] 0) D (n_nodes_created ?s1)
              = Inr (t, n_nodes_created s')"
    and tree: "tree_in (own N (root, it) \<union> (state_free np ?s1 - state_free np s')) s' root t"
    unfolding subtree_built_def by blast
  have "region_build_tree np root N D state_init = Some (Inr s')"
    by (simp add: region_build_tree_def ctor run)
  moreover have "raii_build_tree N D 0 = Inr (t, n_nodes_created s')"
    using raii N(1) by (simp add: raii_build_tree_def raii_Node_def state_init_def)
  ultimately show ?thesis using tree by blast
qed

lemma test_region_refines:
  assumes wp: "well_placed np" and root: "stack_address np root" and N: "0 \<le> N" "N \<le> 512"
  shows "\<exists>checksum count fuel0. test_raii N D = Inr (checksum, count)
           \<and> (\<forall>fuel\<ge>fuel0. test_region np root fuel N D = Some (Inr (checksum, count)))"
proof -
  from region_build_tree_refines [OF assms, of D] obtain s t U where
    build: "region_build_tree np root N D state_init = Some (Inr s)"
    and raii: "raii_build_tree N D 0 = Inr (t, n_nodes_created s)"
    and tree: "tree_in U s root t"
    by blast
  have "test_raii N D = Inr (traverse_raii t, n_nodes_created s)"
    by (simp add: test_raii_def raii)
  moreover have "test_region np root fuel N D
      = Some (Inr (traverse_raii t, n_nodes_created s))" if "size t \<le> fuel" for fuel
    using traverse_region_tree_in [OF tree that] by (simp add: test_region_def build)
  ultimately show ?thesis by blast
qed

text \<open>The number of nodes below a node with \<open>d\<close> further levels.\<close>

fun nodes_below :: "nat \<Rightarrow> nat \<Rightarrow> nat" where
  "nodes_below k 0 = k"
| "nodes_below k (Suc d) = k + k * nodes_below k d"

lemma nodes_below_sum: "1 + nodes_below k d = (\<Sum>j\<le>Suc d. k ^ j)"
proof (induction d)
  case 0
  show ?case by simp
next
  case (Suc d)
  have "(\<Sum>j\<le>Suc (Suc d). k ^ j) = 1 + k * (\<Sum>j\<le>Suc d. k ^ j)"
    by (simp add: sum.atMost_Suc_shift sum_distrib_left del: sum.atMost_Suc)
  also have "\<dots> = 1 + k * (1 + nodes_below k d)" using Suc by simp
  finally show ?case by simp
qed

lemma int32_int32_add: "int32 (int32 a + b) = int32 (a + b)"
proof -
  have "take_bit 32 (signed_take_bit 31 a + b)
      = take_bit 32 (take_bit 32 (signed_take_bit 31 a) + take_bit 32 b)"
    by (simp only: take_bit_add)
  also have "take_bit 32 (signed_take_bit 31 a) = take_bit 32 a"
    by (simp add: take_bit_signed_take_bit)
  also have "take_bit 32 (take_bit 32 a + take_bit 32 b) = take_bit 32 (a + b)"
    by (simp only: take_bit_add)
  finally have "take_bit (Suc 31) (signed_take_bit 31 a + b) = take_bit (Suc 31) (a + b)"
    by simp
  then show ?thesis
    unfolding int32_def by (simp only: signed_take_bit_eq_iff_take_bit_eq)
qed

lemma counter_after_add: "counter_after (a + b) n = counter_after b (counter_after a n)"
  by (induction a arbitrary: n) simp_all

lemma counter_after_int32: "0 < k \<Longrightarrow> counter_after k n = int32 (n + int k)"
proof (induction k arbitrary: n)
  case 0
  then show ?case by simp
next
  case (Suc k)
  show ?case
  proof (cases k)
    case 0
    then show ?thesis by simp
  next
    case (Suc j)
    then have "counter_after k (int32 (n + 1)) = int32 (int32 (n + 1) + int k)"
      by (intro Suc.IH) simp
    then show ?thesis by (simp add: int32_int32_add add.assoc)
  qed
qed

lemma raii_build_each_count:
  assumes sub: "\<And>i n. \<exists>t. raii_build_subtree N (Raii_Node [] i) l n = Inr (t, counter_after c n)"
  shows "\<exists>ts. raii_build_each N (map (Raii_Node []) ids) l n
           = Inr (ts, counter_after (length ids * c) n)"
proof (induction ids arbitrary: n)
  case Nil
  show ?case by simp
next
  case (Cons i ids)
  obtain t where t: "raii_build_subtree N (Raii_Node [] i) l n = Inr (t, counter_after c n)"
    using sub by blast
  obtain ts where ts: "raii_build_each N (map (Raii_Node []) ids) l (counter_after c n)
           = Inr (ts, counter_after (length ids * c) (counter_after c n))"
    using Cons.IH by blast
  show ?case using t ts by (simp add: counter_after_add)
qed

lemma raii_build_subtree_count:
  assumes N: "0 \<le> N" and l: "l = int d + 1" "int d + 1 < 2147483648"
  shows "\<exists>t. raii_build_subtree N (Raii_Node [] i) l n
           = Inr (t, counter_after (nodes_below (nat N) d) n)"
  using l
proof (induction d arbitrary: l i n)
  case 0
  then have "int32 (l - 1) = 0" by (simp add: int32_id)
  then show ?case
    using raii_add_children_ok [OF N N, of "[]" i n] by simp
next
  case (Suc d)
  have l1: "int32 (l - 1) = int d + 1" using Suc.prems by (simp add: int32_id)
  have sub: "\<exists>t. raii_build_subtree N (Raii_Node [] i) (int d + 1) n
           = Inr (t, counter_after (nodes_below (nat N) d) n)" for i n
    using Suc.prems by (intro Suc.IH) simp_all
  let ?ids = "ids_from (nat N) n"
  obtain ts where ts: "raii_build_each N (map (Raii_Node []) ?ids) (int d + 1)
        (counter_after (nat N) n)
      = Inr (ts, counter_after (length ?ids * nodes_below (nat N) d) (counter_after (nat N) n))"
    using raii_build_each_count [of N "int d + 1" "nodes_below (nat N) d" ?ids, OF sub] by blast
  show ?case
    using raii_add_children_ok [OF N N, of "[]" i n] l1 ts
    by (simp add: counter_after_add)
qed

lemma nodes_below_ge: "1 \<le> k \<Longrightarrow> Suc d \<le> nodes_below k d"
proof (induction d)
  case 0
  then show ?case by simp
next
  case (Suc d)
  have "nodes_below k d \<le> k * nodes_below k d" using Suc.prems by simp
  moreover have "Suc d \<le> nodes_below k d" using Suc by simp
  ultimately show ?case using Suc.prems by (simp only: nodes_below.simps)
qed

lemma raii_build_tree_count:
  assumes N: "1 \<le> N" and D: "1 \<le> D" and fits: "(\<Sum>j\<le>nat D. N ^ j) \<le> 2147483647"
  shows "\<exists>t. raii_build_tree N D 0 = Inr (t, \<Sum>j\<le>nat D. N ^ j)"
proof -
  define d where "d = nat (D - 1)"
  have d: "D = int d + 1" using D by (simp add: d_def)
  then have natD: "nat D = Suc d" by simp
  have total: "(\<Sum>j\<le>nat D. N ^ j) = 1 + int (nodes_below (nat N) d)"
  proof -
    have "int (1 + nodes_below (nat N) d) = int (\<Sum>j\<le>Suc d. nat N ^ j)"
      by (simp only: nodes_below_sum)
    also have "\<dots> = (\<Sum>j\<le>Suc d. N ^ j)" using N by (simp del: sum.atMost_Suc)
    finally show ?thesis using natD by simp
  qed
  have "Suc d \<le> nodes_below (nat N) d"
    by (rule nodes_below_ge) (use N in simp)
  then have ge: "int d + 1 \<le> int (nodes_below (nat N) d)" by linarith
  have small: "int d + 1 < 2147483648" using ge total fits by simp
  obtain t where t: "raii_build_subtree N (Raii_Node [] 0) D (int32 1)
      = Inr (t, counter_after (nodes_below (nat N) d) (int32 1))"
    using raii_build_subtree_count [of N D d 0 "int32 1"] N d small by auto
  have pos: "0 < nodes_below (nat N) d" using ge by simp
  have "counter_after (nodes_below (nat N) d) (int32 1) = int32 (1 + int (nodes_below (nat N) d))"
    using counter_after_int32 [OF pos, of "int32 1"] by (simp add: int32_id)
  also have "\<dots> = 1 + int (nodes_below (nat N) d)"
    using total fits by (intro int32_id) simp_all
  finally have "counter_after (nodes_below (nat N) d) (int32 1) = (\<Sum>j\<le>nat D. N ^ j)"
    using total by simp
  with t show ?thesis using N by (simp add: raii_build_tree_def raii_Node_def)
qed

subsection \<open>The claims about the two strategies\<close>

lemma stack_address_1000: "stack_address odd_pages 1000"
  by (auto simp: stack_address_def block_def page_bytes_def odd_pages_def sizeof_Node_def)

lemma example_raii_2_2:
  "raii_build_tree 2 2 0
   = Inr (Raii_Node [Raii_Node [Raii_Node [] 3, Raii_Node [] 4] 1,
                     Raii_Node [Raii_Node [] 5, Raii_Node [] 6] 2] 0, 7)"
  by code_simp

lemma example_raii_513: "test_raii 513 1 = Inr (131841, 514)"
  by code_simp

lemma example_region_513:
  "region_build_tree odd_pages 1000 513 1 state_init = Some (Inl Terminated)"
  by (simp add: region_eval)

lemma sum_3_15: "(\<Sum>j\<le>nat 15. (3::int) ^ j) = 21523360"
  by (simp add: eval_nat_numeral)

text \<open>
  Claim C1, as amended. Let \<^verbatim>\<open>N_CHILDREN\<close> be at least 0 and at most 512, so that the
  array of a node's vector is a small block, and \<^verbatim>\<open>TREE_DEPTH\<close> any \<^verbatim>\<open>int\<close>. Then the
  ownership-based test returns a checksum and a node count, and the region-based test,
  started like it from a counter of 0, returns the same checksum and the same node count,
  wherever the pages of the region and the root are placed. (The traversal of the region
  tree is modelled with fuel; every amount of fuel from some bound on gives this result.)
\<close>

theorem region_and_raii_agree:
  assumes "well_placed np" "stack_address np root" "0 \<le> N" "N \<le> 512"
  shows "\<exists>checksum count fuel0. test_raii N D = Inr (checksum, count)
           \<and> (\<forall>fuel\<ge>fuel0. test_region np root fuel N D = Some (Inr (checksum, count)))"
  using assms by (rule test_region_refines)

theorem region_and_raii_agree_witness:
  "\<exists>checksum count fuel0. test_raii 3 15 = Inr (checksum, count)
     \<and> (\<forall>fuel\<ge>fuel0. test_region odd_pages 1000 fuel 3 15 = Some (Inr (checksum, count)))"
  by (rule region_and_raii_agree [OF well_placed_odd_pages stack_address_1000]) simp_all

text \<open>
  Claim C1 as stated fails for a larger \<^verbatim>\<open>N_CHILDREN\<close>. With 513 children per node and
  one level, the constructor of the root asks the region for 513 * 8 = 4104 bytes, more
  than \<^verbatim>\<open>MAX_SMALL_BLOCK_SIZE\<close>: the region-based test ends in \<^verbatim>\<open>std::terminate()\<close>
  and produces neither checksum nor node count, while the ownership-based test returns
  the checksum 131841 and the node count 514.
\<close>

theorem region_aborts_raii_returns:
  "well_placed odd_pages \<and> stack_address odd_pages 1000
   \<and> region_build_tree odd_pages 1000 513 1 state_init = Some (Inl Terminated)
   \<and> test_region odd_pages 1000 600 513 1 = Some (Inl Terminated)
   \<and> test_raii 513 1 = Inr (131841, 514)"
  by (simp add: well_placed_odd_pages stack_address_1000 example_region_513 example_raii_513
      test_region_def)

text \<open>
  Claim C2, as amended. Let \<open>N_CHILDREN = N \<ge> 1\<close> and \<open>TREE_DEPTH = D \<ge> 1\<close> be such that
  \<open>1 + N + N^2 + ... + N^D\<close> does not exceed the largest \<^verbatim>\<open>int\<close>. Then the ownership-based
  \<^verbatim>\<open>build_tree\<close>, started with the counter at 0, returns with the counter at
  \<open>1 + N + N^2 + ... + N^D\<close>; and if moreover \<open>N \<le> 512\<close>, so does the region-based
  \<^verbatim>\<open>build_tree\<close>, wherever the pages of the region and the root are placed.
\<close>

theorem node_count_geometric:
  assumes "1 \<le> N" "1 \<le> D" "(\<Sum>j\<le>nat D. N ^ j) \<le> 2147483647"
  shows "(\<exists>t. raii_build_tree N D 0 = Inr (t, \<Sum>j\<le>nat D. N ^ j))
     \<and> (N \<le> 512 \<and> well_placed np \<and> stack_address np root \<longrightarrow>
          (\<exists>s. region_build_tree np root N D state_init = Some (Inr s)
               \<and> n_nodes_created s = (\<Sum>j\<le>nat D. N ^ j)))"
proof (intro conjI impI)
  show raii: "\<exists>t. raii_build_tree N D 0 = Inr (t, \<Sum>j\<le>nat D. N ^ j)"
    using assms by (rule raii_build_tree_count)
  assume "N \<le> 512 \<and> well_placed np \<and> stack_address np root"
  then obtain s t U where "region_build_tree np root N D state_init = Some (Inr s)"
    "raii_build_tree N D 0 = Inr (t, n_nodes_created s)"
    using region_build_tree_refines [of np root N D] assms(1) by auto
  with raii show "\<exists>s. region_build_tree np root N D state_init = Some (Inr s)
               \<and> n_nodes_created s = (\<Sum>j\<le>nat D. N ^ j)"
    by auto
qed

theorem node_count_geometric_witness:
  "(\<exists>t. raii_build_tree 3 15 0 = Inr (t, 21523360))
   \<and> (\<exists>s. region_build_tree odd_pages 1000 3 15 state_init = Some (Inr s)
          \<and> n_nodes_created s = 21523360)"
  using node_count_geometric [of 3 15 odd_pages 1000]
  by (simp only: sum_3_15) (simp add: well_placed_odd_pages stack_address_1000)

text \<open>
  Claim C2 as stated fails for the region-based construction with a larger \<^verbatim>\<open>N_CHILDREN\<close>:
  with \<open>k = 513\<close> and \<open>d = 1\<close> the count of the claim is 514, but the construction of the root
  ends in \<^verbatim>\<open>std::terminate()\<close> before a single node is counted.
\<close>

theorem node_count_region_aborts:
  "(1::int) \<le> 513 \<and> (1::int) \<le> 1 \<and> (\<Sum>j\<le>nat 1. (513::int) ^ j) = 514
   \<and> region_build_tree odd_pages 1000 513 1 state_init = Some (Inl Terminated)"
  by (simp add: example_region_513)

text \<open>
  Claim C4. With \<^verbatim>\<open>N_CHILDREN = 2\<close>, \<^verbatim>\<open>TREE_DEPTH = 2\<close> and the counter at 0, the construction
  creates 7 nodes: the root gets identifier 0, its two children 1 and 2 (both before any
  grandchild exists), then the children of node 1 get 3 and 4 and the children of node 2
  get 5 and 6. The checksum of the traversal is 21. This holds for the ownership-based
  strategy and for the region-based one, whose memory represents the same tree.
\<close>

theorem scenario_2_2:
  "raii_build_tree 2 2 0
     = Inr (Raii_Node [Raii_Node [Raii_Node [] 3, Raii_Node [] 4] 1,
                       Raii_Node [Raii_Node [] 5, Raii_Node [] 6] 2] 0, 7)
   \<and> traverse_raii (Raii_Node [Raii_Node [Raii_Node [] 3, Raii_Node [] 4] 1,
                                Raii_Node [Raii_Node [] 5, Raii_Node [] 6] 2] 0) = 21
   \<and> test_raii 2 2 = Inr (21, 7)
   \<and> test_region odd_pages 1000 5 2 2 = Some (Inr (21, 7))
   \<and> (\<exists>s U. region_build_tree odd_pages 1000 2 2 state_init = Some (Inr s)
          \<and> n_nodes_created s = 7
          \<and> tree_in U s 1000 (Raii_Node [Raii_Node [Raii_Node [] 3, Raii_Node [] 4] 1,
                                          Raii_Node [Raii_Node [] 5, Raii_Node [] 6] 2] 0))"
proof -
  have trav: "traverse_raii (Raii_Node [Raii_Node [Raii_Node [] 3, Raii_Node [] 4] 1,
                                Raii_Node [Raii_Node [] 5, Raii_Node [] 6] 2] 0) = 21"
    by (simp add: int32_id smod_mod_positive)
  have "\<exists>s t U. region_build_tree odd_pages 1000 2 2 state_init = Some (Inr s)
           \<and> raii_build_tree 2 2 0 = Inr (t, n_nodes_created s)
           \<and> tree_in U s 1000 t"
    by (rule region_build_tree_refines [OF well_placed_odd_pages stack_address_1000]) simp_all
  then have region: "\<exists>s U. region_build_tree odd_pages 1000 2 2 state_init = Some (Inr s)
          \<and> n_nodes_created s = 7
          \<and> tree_in U s 1000 (Raii_Node [Raii_Node [Raii_Node [] 3, Raii_Node [] 4] 1,
                                          Raii_Node [Raii_Node [] 5, Raii_Node [] 6] 2] 0)"
    unfolding example_raii_2_2 by auto
  show ?thesis
    using trav region by (simp add: example_raii_2_2 example_region_2_2 test_raii_def)
qed

end
